theory Spec2Isabelle
  imports
    Complex_Main
    "HOL-Library.Char_ord"
    "HOL-Library.List_Lexorder"
    "HOL-Library.Product_Lexorder"
begin

section \<open>The dysentery dashboard pipeline of \<^verbatim>\<open>app.py\<close>\<close>

text \<open>
  The program is one script: \<^verbatim>\<open>load_data\<close> cleans the CSV, a boolean mask filters it,
  three group-by reductions feed the charts, and a linear regression over the by-date
  totals is extrapolated over six months. The embedding keeps that order.

  Conventions of the model.
  \<^item> A data frame is a list of rows; a nullable cell is an \<open>option\<close> (\<open>None\<close> is
    NaN / NaT). A column is a list of cells.
  \<^item> Strings are \<open>char list\<close>; \<^verbatim>\<open>\d\<close> is modelled on the ASCII digits.
  \<^item> \<^verbatim>\<open>Number of cases\<close> and every quantity computed from it is a \<open>real\<close>: the
    arithmetic of the model is exact, float64 rounding is not modelled.
  \<^item> A timestamp at midnight is the triple (year, month, day), ordered lexicographically,
    which is the chronological order. pandas stores timestamps as 64-bit nanosecond
    counts, so only the days from 1677-09-22 to 2262-04-11 are representable.
  \<^item> An exception of the script is a value \<open>Inl e\<close> of a sum type.
\<close>

subsection \<open>Data model\<close>

text \<open>One line of \<^verbatim>\<open>Dysentery_data.csv\<close> as \<^verbatim>\<open>pd.read_csv\<close> returns it.\<close>

record raw_record =
  refArea :: "string option"
  refPeriod :: "string option"
  csv_Number_of_cases :: "real option"

type_synonym timestamp = "nat \<times> nat \<times> nat"

text \<open>A row of the frame that \<^verbatim>\<open>load_data\<close> returns: after \<^verbatim>\<open>dropna()\<close> no cell is null.\<close>

record clean_record =
  Date :: timestamp
  Year :: string
  Month :: string
  Governorate :: string
  Number_of_cases :: real

datatype error = ValueError | OutOfBoundsDatetime

subsection \<open>Regular expressions of the loader\<close>

definition is_digit :: "char \<Rightarrow> bool" where
  "is_digit c = (c \<in> set ''0123456789'')"

definition digit_val :: "char \<Rightarrow> nat" where
  "digit_val c = of_char c - 48"

text \<open>\<^verbatim>\<open>int(s)\<close> on a string of digits.\<close>

definition nat_of_digits :: "string \<Rightarrow> nat" where
  "nat_of_digits s = foldl (\<lambda>n c. 10 * n + digit_val c) 0 s"

text \<open>
  \<^verbatim>\<open>re.search\<close>: the pattern is tried at every start position from the left, the end of
  the string included, and the first position where it matches wins. The first argument
  is the anchored match of the pattern at the head of a string, returning group 1.
\<close>

fun re_search :: "(string \<Rightarrow> 'a option) \<Rightarrow> string \<Rightarrow> 'a option" where
  "re_search m [] = m []"
| "re_search m (c # cs) = (case m (c # cs) of Some g \<Rightarrow> Some g | None \<Rightarrow> re_search m cs)"

text \<open>
  \<^verbatim>\<open>/resource/([^/]+)$\<close> at the head of \<open>s\<close>: the literal, then a greedy non-empty run
  of characters other than \<^verbatim>\<open>/\<close> that has to reach the end of the string.
\<close>

definition match_resource :: "string \<Rightarrow> string option" where
  "match_resource s =
     (if take 10 s = ''/resource/'' \<and> drop 10 s \<noteq> [] \<and> CHR ''/'' \<notin> set (drop 10 s)
      then Some (drop 10 s) else None)"

text \<open>\<^verbatim>\<open>(\d{4})\<close> at the head of \<open>s\<close>.\<close>

definition match_year :: "string \<Rightarrow> string option" where
  "match_year s =
     (if 4 \<le> length s \<and> list_all is_digit (take 4 s) then Some (take 4 s) else None)"

text \<open>\<^verbatim>\<open>(\d{2})-\d{4}\<close> at the head of \<open>s\<close>.\<close>

definition match_month :: "string \<Rightarrow> string option" where
  "match_month s =
     (if 7 \<le> length s \<and> list_all is_digit (take 2 s) \<and> s ! 2 = CHR ''-''
         \<and> list_all is_digit (take 4 (drop 3 s))
      then Some (take 2 s) else None)"

text \<open>\<^verbatim>\<open>Series.str.extract(pat)[0]\<close> on one cell: a null cell stays null.\<close>

definition str_extract :: "(string \<Rightarrow> string option) \<Rightarrow> string option \<Rightarrow> string option" where
  "str_extract m cell = (case cell of None \<Rightarrow> None | Some s \<Rightarrow> re_search m s)"

text \<open>\<^verbatim>\<open>Series.str.replace('_', ' ')\<close> on one cell.\<close>

definition str_replace_underscore :: "string option \<Rightarrow> string option" where
  "str_replace_underscore cell =
     map_option (map (\<lambda>c. if c = CHR ''_'' then CHR '' '' else c)) cell"

text \<open>\<^verbatim>\<open>a + b\<close> on two cells of string columns: null if either is null.\<close>

definition str_add :: "string option \<Rightarrow> string option \<Rightarrow> string option" where
  "str_add a b = (case a of None \<Rightarrow> None | Some x \<Rightarrow> map_option (\<lambda>y. x @ y) b)"

subsection \<open>Timestamps\<close>

text \<open>The first and the last midnight that a nanosecond timestamp can hold.\<close>

definition Timestamp_min :: timestamp where
  "Timestamp_min = (1677, 9, 22)"

definition Timestamp_max :: timestamp where
  "Timestamp_max = (2262, 4, 11)"

text \<open>
  \<^verbatim>\<open>pd.to_datetime(cell, errors='coerce')\<close> on one cell. Every non-null cell that reaches
  it in \<^verbatim>\<open>load_data\<close> is four digits, a dash and two digits (lemma \<open>year_month_shape\<close>);
  it parses as ISO year-month to the first day of that month. A month outside 1..12 or
  a day outside the representable range is coerced to NaT, as is a null cell.
\<close>

definition to_datetime_coerce :: "string option \<Rightarrow> timestamp option" where
  "to_datetime_coerce cell =
     (case cell of
        None \<Rightarrow> None
      | Some s \<Rightarrow>
          if length s = 7 \<and> list_all is_digit (take 4 s) \<and> s ! 4 = CHR ''-''
               \<and> list_all is_digit (drop 5 s)
          then
            (let y = nat_of_digits (take 4 s);
                 m = nat_of_digits (drop 5 s)
             in if 1 \<le> m \<and> m \<le> 12 \<and> Timestamp_min \<le> (y, m, 1) \<and> (y, m, 1) \<le> Timestamp_max
                then Some (y, m, 1) else None)
          else None)"

subsection \<open>The loader\<close>

text \<open>
  \<^verbatim>\<open>df[[...]].dropna()\<close>: a row survives when none of its five cells is null.
\<close>

fun dropna_row ::
  "timestamp option \<times> string option \<times> string option \<times> string option \<times> real option
     \<Rightarrow> clean_record option" where
  "dropna_row (Some d, Some y, Some m, Some g, Some n) =
     Some \<lparr>Date = d, Year = y, Month = m, Governorate = g, Number_of_cases = n\<rparr>"
| "dropna_row _ = None"

definition dropna ::
  "(timestamp option \<times> string option \<times> string option \<times> string option \<times> real option) list
     \<Rightarrow> clean_record list" where
  "dropna rows = List.map_filter dropna_row rows"

text \<open>\<^verbatim>\<open>load_data\<close>, column by column as the script computes it.\<close>

definition load_data :: "raw_record list \<Rightarrow> clean_record list" where
  "load_data csv =
     (let df = filter (\<lambda>r. csv_Number_of_cases r \<noteq> None) csv;
          Governorate_col =
            map (\<lambda>r. str_replace_underscore (str_extract match_resource (refArea r))) df;
          Year_col = map (\<lambda>r. str_extract match_year (refPeriod r)) df;
          Month_col = map (\<lambda>r. str_extract match_month (refPeriod r)) df;
          Date_col =
            map (\<lambda>(y, m). to_datetime_coerce (str_add (str_add y (Some ''-'')) m))
              (zip Year_col Month_col)
      in dropna (zip Date_col (zip Year_col (zip Month_col
           (zip Governorate_col (map csv_Number_of_cases df))))))"

text \<open>
  The same five cells read along one CSV line instead of down the columns; lemma
  \<open>load_data_rowwise\<close> shows that \<^verbatim>\<open>load_data\<close> is this, line by line.
\<close>

definition row_cells ::
  "raw_record \<Rightarrow> timestamp option \<times> string option \<times> string option \<times> string option \<times> real option" where
  "row_cells r =
     (to_datetime_coerce
        (str_add (str_add (str_extract match_year (refPeriod r)) (Some ''-''))
           (str_extract match_month (refPeriod r))),
      str_extract match_year (refPeriod r),
      str_extract match_month (refPeriod r),
      str_replace_underscore (str_extract match_resource (refArea r)),
      csv_Number_of_cases r)"

subsection \<open>The filter stage\<close>

text \<open>
  \<^verbatim>\<open>df[df["Year"].isin(selected_years) & df["Governorate"].isin(selected_govs)]\<close>;
  the two selections are the lists that the multiselect widgets return.
\<close>

definition df_filtered :: "string list \<Rightarrow> string list \<Rightarrow> clean_record list \<Rightarrow> clean_record list" where
  "df_filtered selected_years selected_govs df =
     filter (\<lambda>r. Year r \<in> set selected_years \<and> Governorate r \<in> set selected_govs) df"

subsection \<open>Key figures\<close>

text \<open>\<^verbatim>\<open>int(x)\<close> on a float truncates towards zero.\<close>

definition py_int :: "real \<Rightarrow> int" where
  "py_int x = (if 0 \<le> x then \<lfloor>x\<rfloor> else \<lceil>x\<rceil>)"

definition kpi_total_cases :: "clean_record list \<Rightarrow> int" where
  "kpi_total_cases df = py_int (sum_list (map Number_of_cases df))"

definition kpi_months_covered :: "clean_record list \<Rightarrow> nat" where
  "kpi_months_covered df = length (remdups (map Date df))"

definition kpi_governorates :: "clean_record list \<Rightarrow> nat" where
  "kpi_governorates df = length (remdups (map Governorate df))"

subsection \<open>Group-by reductions\<close>

text \<open>
  \<^verbatim>\<open>df.groupby(key)[value]\<close> on the two selected columns: one group for each distinct key,
  the groups in ascending key order (\<^verbatim>\<open>sort=True\<close> is the default), each group holding
  the values of its rows in row order.
\<close>

definition groupby :: "('k::linorder \<times> real) list \<Rightarrow> ('k \<times> real list) list" where
  "groupby kvs =
     map (\<lambda>k. (k, map snd (filter (\<lambda>kv. fst kv = k) kvs))) (sort (remdups (map fst kvs)))"

definition groupby_sum :: "('k::linorder \<times> real) list \<Rightarrow> ('k \<times> real) list" where
  "groupby_sum kvs = map (\<lambda>(k, vs). (k, sum_list vs)) (groupby kvs)"

definition groupby_mean :: "('k::linorder \<times> real) list \<Rightarrow> ('k \<times> real) list" where
  "groupby_mean kvs = map (\<lambda>(k, vs). (k, sum_list vs / real (length vs))) (groupby kvs)"

text \<open>Line 51: the by-date totals, \<^verbatim>\<open>reset_index()\<close> making the dates a column.\<close>

definition trend :: "clean_record list \<Rightarrow> (timestamp \<times> real) list" where
  "trend df = groupby_sum (map (\<lambda>r. (Date r, Number_of_cases r)) df)"

text \<open>
  Line 62: the by-region totals, then \<^verbatim>\<open>sort_values(ascending=True)\<close>. The model sorts
  stably; the order pandas gives to equal totals is not fixed by its default sort, and
  nothing below depends on it.
\<close>

definition gov_data :: "clean_record list \<Rightarrow> (string \<times> real) list" where
  "gov_data df = sort_key snd (groupby_sum (map (\<lambda>r. (Governorate r, Number_of_cases r)) df))"

subsection \<open>Seasonality\<close>

definition month_order :: "string list" where
  "month_order =
     [''January'', ''February'', ''March'', ''April'', ''May'', ''June'',
      ''July'', ''August'', ''September'', ''October'', ''November'', ''December'']"

text \<open>
  \<^verbatim>\<open>pd.to_datetime(cell, format="%m")\<close> on one cell, reduced to the month it parses:
  the directive accepts \<^verbatim>\<open>1[0-2]|0[1-9]|[1-9]\<close> and the whole cell has to be consumed;
  anything else raises (\<^verbatim>\<open>errors='raise'\<close> is the default).
\<close>

definition strptime_m :: "string \<Rightarrow> error + nat" where
  "strptime_m s =
     (case s of
        [c] \<Rightarrow> if is_digit c \<and> c \<noteq> CHR ''0'' then Inr (digit_val c) else Inl ValueError
      | [c1, c2] \<Rightarrow>
          if is_digit c1 \<and> is_digit c2 \<and> 1 \<le> nat_of_digits [c1, c2] \<and> nat_of_digits [c1, c2] \<le> 12
          then Inr (nat_of_digits [c1, c2]) else Inl ValueError
      | _ \<Rightarrow> Inl ValueError)"

text \<open>\<^verbatim>\<open>strftime("%B")\<close> of a timestamp in month \<open>m\<close>, in the default C locale.\<close>

definition strftime_B :: "nat \<Rightarrow> string" where
  "strftime_B m =
     [''January'', ''February'', ''March'', ''April'', ''May'', ''June'',
      ''July'', ''August'', ''September'', ''October'', ''November'', ''December''] ! (m - 1)"

text \<open>Evaluating a column cell by cell: the first exception aborts the statement.\<close>

fun collect :: "(error + 'a) list \<Rightarrow> error + 'a list" where
  "collect [] = Inr []"
| "collect (x # xs) =
     (case x of
        Inl e \<Rightarrow> Inl e
      | Inr v \<Rightarrow> (case collect xs of Inl e \<Rightarrow> Inl e | Inr vs \<Rightarrow> Inr (v # vs)))"

text \<open>Line 73: the \<^verbatim>\<open>Month Name\<close> column.\<close>

definition Month_Name :: "clean_record list \<Rightarrow> error + string list" where
  "Month_Name df =
     collect (map (\<lambda>r. case strptime_m (Month r) of Inl e \<Rightarrow> Inl e | Inr m \<Rightarrow> Inr (strftime_B m)) df)"

text \<open>\<^verbatim>\<open>Series.reindex(labels)\<close>: one entry for each label, NaN where the label is no key.\<close>

definition reindex :: "'k list \<Rightarrow> ('k \<times> real) list \<Rightarrow> ('k \<times> real option) list" where
  "reindex labels series = map (\<lambda>k. (k, map_of series k)) labels"

text \<open>Lines 73 to 77.\<close>

definition monthly_avg :: "clean_record list \<Rightarrow> error + (string \<times> real option) list" where
  "monthly_avg df =
     (case Month_Name df of
        Inl e \<Rightarrow> Inl e
      | Inr names \<Rightarrow> Inr (reindex month_order (groupby_mean (zip names (map Number_of_cases df)))))"

subsection \<open>Calendar arithmetic\<close>

text \<open>
  The proleptic Gregorian ordinal of \<^verbatim>\<open>datetime.toordinal\<close>: 0001-01-01 is day 1. The
  two tables are read at the month of a timestamp, which is always between 1 and 12.
\<close>

definition is_leap :: "nat \<Rightarrow> bool" where
  "is_leap year = (year mod 4 = 0 \<and> (year mod 100 \<noteq> 0 \<or> year mod 400 = 0))"

definition days_before_year :: "nat \<Rightarrow> nat" where
  "days_before_year year = (let y = year - 1 in y * 365 + y div 4 - y div 100 + y div 400)"

definition days_in_month :: "nat \<Rightarrow> nat \<Rightarrow> nat" where
  "days_in_month year month =
     (if month = 2 \<and> is_leap year then 29
      else [0, 31, 28, 31, 30, 31, 30, 31, 31, 30, 31, 30, 31] ! month)"

definition days_before_month :: "nat \<Rightarrow> nat \<Rightarrow> nat" where
  "days_before_month year month =
     [0, 0, 31, 59, 90, 120, 151, 181, 212, 243, 273, 304, 334] ! month
       + (if 2 < month \<and> is_leap year then 1 else 0)"

definition toordinal :: "timestamp \<Rightarrow> nat" where
  "toordinal ts = (case ts of (y, m, d) \<Rightarrow> days_before_year y + days_before_month y m + d)"

text \<open>
  \<^verbatim>\<open>ts + pd.DateOffset(months=i)\<close> for \<open>i\<close> up to 12: the month moves on, the year with
  it past December, and the day is clipped to the length of the month reached. A result
  past the last representable day raises.
\<close>

definition add_months :: "timestamp \<Rightarrow> nat \<Rightarrow> error + timestamp" where
  "add_months ts i =
     (case ts of (y, m, d) \<Rightarrow>
        (let year = (if 12 < m + i then y + 1 else y);
             month = (if 12 < m + i then m + i - 12 else m + i);
             day = min (days_in_month year month) d
         in if (year, month, day) \<le> Timestamp_max then Inr (year, month, day)
            else Inl OutOfBoundsDatetime))"

subsection \<open>The forecast\<close>

text \<open>
  Lines 87 to 89: the by-date totals again, sorted by date, with the ordinal of each date
  as a third column. \<^verbatim>\<open>dropna()\<close> has nothing to drop: a sum of non-null values and a
  group key are never null.
\<close>

definition monthly_cases :: "clean_record list \<Rightarrow> (timestamp \<times> real \<times> nat) list" where
  "monthly_cases df =
     map (\<lambda>(d, c). (d, c, toordinal d))
       (sort_key fst (groupby_sum (map (\<lambda>r. (Date r, Number_of_cases r)) df)))"

text \<open>
  \<^verbatim>\<open>LinearRegression().fit(X, y)\<close> with one feature. scikit-learn rejects an input of no
  samples with a \<^verbatim>\<open>ValueError\<close>; otherwise it centres both columns and solves the
  least-squares problem for the slope, taking the minimum-norm solution (slope 0) when
  the centred feature is all zero; the intercept makes the line pass through the means.
  The result is (slope, intercept).
\<close>

definition LinearRegression_fit :: "real list \<Rightarrow> real list \<Rightarrow> error + (real \<times> real)" where
  "LinearRegression_fit X y =
     (if X = [] \<or> length X \<noteq> length y then Inl ValueError
      else
        (let n = real (length X);
             X_offset = sum_list X / n;
             y_offset = sum_list y / n;
             Xc = map (\<lambda>x. x - X_offset) X;
             yc = map (\<lambda>v. v - y_offset) y;
             sxx = sum_list (map (\<lambda>x. x * x) Xc);
             sxy = sum_list (map (\<lambda>(x, v). x * v) (zip Xc yc));
             coef = (if sxx = 0 then 0 else sxy / sxx)
         in Inr (coef, y_offset - X_offset * coef)))"

definition predict :: "real \<times> real \<Rightarrow> real \<Rightarrow> real" where
  "predict model x = fst model * x + snd model"

text \<open>\<^verbatim>\<open>Series.max()\<close> of a date column: NaT on an empty column.\<close>

definition series_max :: "timestamp list \<Rightarrow> timestamp option" where
  "series_max ds = (case ds of [] \<Rightarrow> None | d # ds' \<Rightarrow> Some (fold max ds' d))"

text \<open>Line 95.\<close>

definition future_dates :: "timestamp \<Rightarrow> error + timestamp list" where
  "future_dates last_date = collect (map (add_months last_date) [1..<7])"

text \<open>
  Lines 87 to 99: the frame of the six forecast points. The fit comes first, so an empty
  series never reaches \<^verbatim>\<open>max()\<close>; were it to, \<^verbatim>\<open>NaT.toordinal()\<close> would raise.
\<close>

definition forecast_df :: "clean_record list \<Rightarrow> error + (timestamp \<times> real) list" where
  "forecast_df df =
     (let mc = monthly_cases df;
          X = map (\<lambda>(d, c, ordinal). real ordinal) mc;
          y = map (\<lambda>(d, c, ordinal). c) mc
      in case LinearRegression_fit X y of
           Inl e \<Rightarrow> Inl e
         | Inr model \<Rightarrow>
             (case series_max (map fst mc) of
                None \<Rightarrow> Inl ValueError
              | Some last_date \<Rightarrow>
                  (case future_dates last_date of
                     Inl e \<Rightarrow> Inl e
                   | Inr fd \<Rightarrow> Inr (zip fd (map (\<lambda>d. predict model (real (toordinal d))) fd)))))"

subsection \<open>Notions used to state the properties\<close>

text \<open>
  What \<^verbatim>\<open>load_data\<close> guarantees of each row it returns: the date is the first day of a
  month, it is representable, and the \<^verbatim>\<open>Month\<close> cell parses under \<^verbatim>\<open>%m\<close> to the month of
  the date.
\<close>

definition clean_row_ok :: "clean_record \<Rightarrow> bool" where
  "clean_row_ok r =
     (case Date r of (y, m, d) \<Rightarrow>
        d = 1 \<and> 1 \<le> m \<and> m \<le> 12 \<and> Timestamp_min \<le> Date r \<and> Date r \<le> Timestamp_max
        \<and> strptime_m (Month r) = Inr m)"

text \<open>Calendar months counted from year 0: two dates one calendar month apart differ by 1.\<close>

definition month_index :: "timestamp \<Rightarrow> nat" where
  "month_index ts = (case ts of (y, m, d) \<Rightarrow> 12 * y + (m - 1))"

text \<open>The first day of the month with a given index.\<close>

definition month_start :: "nat \<Rightarrow> timestamp" where
  "month_start k = (k div 12, k mod 12 + 1, 1)"

text \<open>The residual sum of squares of a line on a sample, which least squares minimises.\<close>

definition residual_sum_of_squares :: "real \<times> real \<Rightarrow> real list \<Rightarrow> real list \<Rightarrow> real" where
  "residual_sum_of_squares model X y =
     sum_list (map (\<lambda>(x, v). (v - predict model x)\<^sup>2) (zip X y))"

text \<open>
  The spec's reading of the two period patterns, stated on the string alone. \<open>y\<close> is the
  first 4-digit run of \<open>p\<close>: four digits standing somewhere in \<open>p\<close>, with no four digits
  in a row starting further left.
\<close>

definition first_four_digit_run :: "string \<Rightarrow> string \<Rightarrow> bool" where
  "first_four_digit_run p y =
     (\<exists>pre suf. p = pre @ y @ suf \<and> length y = 4 \<and> list_all is_digit y
        \<and> (\<forall>a w b. p = a @ w @ b \<and> length w = 4 \<and> list_all is_digit w
              \<longrightarrow> length pre \<le> length a))"

text \<open>
  \<open>m\<close> is the 2-digit run of \<open>p\<close> immediately before a dash and a 4-digit year: two
  digits, a dash and four digits standing somewhere in \<open>p\<close>, with no such group
  starting further left.
\<close>

definition two_digits_before_year :: "string \<Rightarrow> string \<Rightarrow> bool" where
  "two_digits_before_year p m =
     (\<exists>pre yy suf. p = pre @ m @ ''-'' @ yy @ suf
        \<and> length m = 2 \<and> list_all is_digit m \<and> length yy = 4 \<and> list_all is_digit yy
        \<and> (\<forall>a m' yy' b. p = a @ m' @ ''-'' @ yy' @ b
              \<and> length m' = 2 \<and> list_all is_digit m' \<and> length yy' = 4 \<and> list_all is_digit yy'
              \<longrightarrow> length pre \<le> length a))"

section \<open>Properties\<close>

subsection \<open>Group-by conserves the total\<close>

lemma sum_list_delta:
  "distinct ks \<Longrightarrow>
   sum_list (map (\<lambda>k. if k0 = k then (c::real) + f k else f k) ks)
     = (if k0 \<in> set ks then c else 0) + sum_list (map f ks)"
  by (induction ks) auto

lemma groupby_total_aux:
  "distinct ks \<Longrightarrow> fst ` set kvs \<subseteq> set ks \<Longrightarrow>
   sum_list (map (\<lambda>k. sum_list (map snd (filter (\<lambda>kv. fst kv = k) kvs))) ks)
     = sum_list (map snd (kvs :: ('k \<times> real) list))"
proof (induction kvs)
  case Nil
  then show ?case by simp
next
  case (Cons kv kvs)
  have "sum_list (map (\<lambda>k. sum_list (map snd (filter (\<lambda>kv. fst kv = k) (kv # kvs)))) ks)
      = sum_list (map (\<lambda>k. if fst kv = k
                            then snd kv + sum_list (map snd (filter (\<lambda>kv. fst kv = k) kvs))
                            else sum_list (map snd (filter (\<lambda>kv. fst kv = k) kvs))) ks)"
    by (rule arg_cong [where f = sum_list]) (rule map_cong, auto)
  also have "\<dots> = snd kv
      + sum_list (map (\<lambda>k. sum_list (map snd (filter (\<lambda>kv. fst kv = k) kvs))) ks)"
    using Cons.prems by (simp add: sum_list_delta)
  finally show ?case using Cons by simp
qed

lemma groupby_sum_total:
  "sum_list (map snd (groupby_sum kvs)) = sum_list (map snd kvs)"
proof -
  have "sum_list (map snd (groupby_sum kvs))
      = sum_list (map (\<lambda>k. sum_list (map snd (filter (\<lambda>kv. fst kv = k) kvs)))
          (sort (remdups (map fst kvs))))"
    by (simp add: groupby_sum_def groupby_def comp_def)
  also have "\<dots> = sum_list (map snd kvs)"
    by (rule groupby_total_aux) auto
  finally show ?thesis .
qed

lemma sum_list_insort_key:
  "sum_list (map f (insort_key g x xs)) = (f x :: real) + sum_list (map f xs)"
  by (induction xs) auto

lemma sum_list_sort_key:
  "sum_list (map f (sort_key g xs)) = (sum_list (map f xs) :: real)"
  by (induction xs) (auto simp: sum_list_insort_key)

text \<open>
  Claim C3. For every table, filtered or not, the values of the by-date total view and
  the values of the by-region total view both add up to the sum of
  \<^verbatim>\<open>Number of cases\<close> over the table, hence to the same number.
\<close>

theorem totals_conserved:
  "sum_list (map snd (trend df)) = sum_list (map Number_of_cases df)
   \<and> sum_list (map snd (gov_data df)) = sum_list (map Number_of_cases df)
   \<and> sum_list (map snd (trend df)) = sum_list (map snd (gov_data df))"
  by (simp add: trend_def gov_data_def groupby_sum_total sum_list_sort_key comp_def)

subsection \<open>The loader, line by line\<close>

lemma re_search_SomeD:
  "re_search m s = Some g \<Longrightarrow> \<exists>pre suf. s = pre @ suf \<and> m suf = Some g"
proof (induction s)
  case Nil
  then show ?case by simp
next
  case (Cons c cs)
  show ?case
  proof (cases "m (c # cs)")
    case None
    with Cons obtain pre suf where "cs = pre @ suf" "m suf = Some g" by auto
    then have "c # cs = (c # pre) @ suf \<and> m suf = Some g" by simp
    then show ?thesis by blast
  next
    case (Some a)
    with Cons.prems have "c # cs = [] @ (c # cs) \<and> m (c # cs) = Some g" by simp
    then show ?thesis by blast
  qed
qed

lemma re_search_skip:
  "(\<And>suf. suf \<noteq> [] \<Longrightarrow> m (suf @ s) = None) \<Longrightarrow> re_search m (pre @ s) = re_search m s"
proof (induction pre)
  case Nil
  show ?case by simp
next
  case (Cons a pre)
  have "m ((a # pre) @ s) = None" by (rule Cons.prems) simp
  with Cons show ?case by simp
qed

lemma match_resourceD:
  assumes "match_resource s = Some g"
  shows "s = ''/resource/'' @ g \<and> g \<noteq> [] \<and> CHR ''/'' \<notin> set g"
proof -
  from assms have t: "take 10 s = ''/resource/''" and d: "drop 10 s = g"
    and g: "g \<noteq> [] \<and> CHR ''/'' \<notin> set g"
    by (auto simp: match_resource_def split: if_splits)
  have "s = take 10 s @ drop 10 s" by simp
  with t d g show ?thesis by simp
qed

lemma slash_in_drop:
  assumes "k \<le> 9"
  shows "CHR ''/'' \<in> set (drop k (''/resource/'' @ seg))"
proof -
  have "set (drop 9 (''/resource/'' @ seg)) \<subseteq> set (drop k (''/resource/'' @ seg))"
    using assms by (rule set_drop_subset_set_drop)
  then show ?thesis by auto
qed

lemma match_resource_inside:
  assumes "suf \<noteq> []"
  shows "match_resource (suf @ ''/resource/'' @ seg) = None"
proof -
  have "CHR ''/'' \<in> set (drop (10 - length suf) (''/resource/'' @ seg))"
    using assms by (intro slash_in_drop) (cases suf, auto)
  then have "CHR ''/'' \<in> set (drop 10 (suf @ ''/resource/'' @ seg))"
    by simp
  then show ?thesis by (simp add: match_resource_def)
qed

lemma re_search_resource:
  assumes "seg \<noteq> []" "CHR ''/'' \<notin> set seg"
  shows "re_search match_resource (pre @ ''/resource/'' @ seg) = Some seg"
proof -
  have "re_search match_resource (pre @ ''/resource/'' @ seg)
      = re_search match_resource (''/resource/'' @ seg)"
    by (rule re_search_skip) (rule match_resource_inside)
  also have "\<dots> = Some seg"
    using assms by (simp add: match_resource_def)
  finally show ?thesis .
qed

lemma re_search_resource_iff:
  "re_search match_resource s = Some g \<longleftrightarrow>
     (\<exists>pre. s = pre @ ''/resource/'' @ g) \<and> g \<noteq> [] \<and> CHR ''/'' \<notin> set g"
proof
  assume "re_search match_resource s = Some g"
  then obtain pre suf where s: "s = pre @ suf" and suf: "match_resource suf = Some g"
    by (auto dest: re_search_SomeD)
  from suf have "suf = ''/resource/'' @ g \<and> g \<noteq> [] \<and> CHR ''/'' \<notin> set g"
    by (rule match_resourceD)
  with s show "(\<exists>pre. s = pre @ ''/resource/'' @ g) \<and> g \<noteq> [] \<and> CHR ''/'' \<notin> set g"
    by auto
next
  assume "(\<exists>pre. s = pre @ ''/resource/'' @ g) \<and> g \<noteq> [] \<and> CHR ''/'' \<notin> set g"
  then obtain pre where "s = pre @ ''/resource/'' @ g" and "g \<noteq> []" and "CHR ''/'' \<notin> set g"
    by blast
  then show "re_search match_resource s = Some g"
    using re_search_resource [of g pre] by simp
qed

lemma match_yearD:
  "match_year s = Some y \<Longrightarrow> length y = 4 \<and> list_all is_digit y"
  by (auto simp: match_year_def split: if_splits)

lemma match_monthD:
  "match_month s = Some m \<Longrightarrow> length m = 2 \<and> list_all is_digit m"
  by (auto simp: match_month_def split: if_splits)

lemma extract_year_shape:
  "re_search match_year p = Some y \<Longrightarrow> length y = 4 \<and> list_all is_digit y"
  by (auto dest!: re_search_SomeD match_yearD)

lemma extract_month_shape:
  "re_search match_month p = Some m \<Longrightarrow> length m = 2 \<and> list_all is_digit m"
  by (auto dest!: re_search_SomeD match_monthD)

lemma zip_map_same: "zip (map f xs) (map g xs) = map (\<lambda>x. (f x, g x)) xs"
  by (induction xs) auto

lemma map_filter_map: "List.map_filter f (map g xs) = List.map_filter (\<lambda>x. f (g x)) xs"
  by (induction xs) (auto simp: List.map_filter_simps split: option.split)

lemma map_filter_append_one: "List.map_filter f (x # xs) = List.map_filter f [x] @ List.map_filter f xs"
  by (simp add: List.map_filter_simps split: option.split)

lemma load_data_rowwise:
  "load_data csv =
     List.map_filter (\<lambda>r. dropna_row (row_cells r))
       (filter (\<lambda>r. csv_Number_of_cases r \<noteq> None) csv)"
  unfolding load_data_def Let_def dropna_def row_cells_def
  by (simp only: zip_map_same map_map comp_def map_filter_map case_prod_conv)

lemma year_month_parts:
  assumes "length y = 4" "length m = 2"
  shows "length (y @ ''-'' @ m) = 7" "take 4 (y @ ''-'' @ m) = y" "drop 5 (y @ ''-'' @ m) = m"
    "(y @ ''-'' @ m) ! 4 = CHR ''-''"
  using assms by (simp_all add: nth_append)

lemma to_datetime_year_month:
  assumes "length y = 4" "length m = 2"
  shows "to_datetime_coerce (str_add (str_add (Some y) (Some ''-'')) (Some m)) =
     (if list_all is_digit y \<and> list_all is_digit m
         \<and> 1 \<le> nat_of_digits m \<and> nat_of_digits m \<le> 12
         \<and> Timestamp_min \<le> (nat_of_digits y, nat_of_digits m, 1)
         \<and> (nat_of_digits y, nat_of_digits m, 1) \<le> Timestamp_max
      then Some (nat_of_digits y, nat_of_digits m, 1) else None)"
proof -
  have "str_add (str_add (Some y) (Some ''-'')) (Some m) = Some (y @ ''-'' @ m)"
    by (simp add: str_add_def)
  then show ?thesis
    unfolding to_datetime_coerce_def Let_def
    by (simp only: option.case year_month_parts [OF assms] refl if_True simp_thms)
      (simp del: less_eq_prod_simp less_prod_simp)
qed

lemma year_month_shape:
  assumes "str_add (str_add (str_extract match_year p) (Some ''-'')) (str_extract match_month p)
             = Some s"
  shows "length s = 7 \<and> list_all is_digit (take 4 s) \<and> s ! 4 = CHR ''-''
           \<and> list_all is_digit (drop 5 s)"
proof -
  from assms obtain y m where y: "str_extract match_year p = Some y"
    and m: "str_extract match_month p = Some m" and s: "s = y @ ''-'' @ m"
    by (auto simp: str_add_def split: option.splits)
  from y have ys: "length y = 4" and yd: "list_all is_digit y"
    by (auto simp: str_extract_def split: option.splits dest: extract_year_shape)
  from m have ms: "length m = 2" and md: "list_all is_digit m"
    by (auto simp: str_extract_def split: option.splits dest: extract_month_shape)
  show ?thesis
    unfolding s by (simp only: year_month_parts [OF ys ms] yd md simp_thms)
qed



lemma load_data_single:
  "load_data [r] =
     (if csv_Number_of_cases r = None then []
      else (case dropna_row (row_cells r) of None \<Rightarrow> [] | Some row \<Rightarrow> [row]))"
  by (simp add: load_data_rowwise List.map_filter_simps split: option.split)

lemma load_data_Cons:
  "load_data (r # csv) = load_data [r] @ load_data csv"
proof -
  have "load_data (r # csv) = (if csv_Number_of_cases r \<noteq> None then load_data [r] else []) @ load_data csv"
    unfolding load_data_rowwise by (simp add: List.map_filter_simps split: option.split)
  moreover have "csv_Number_of_cases r = None \<Longrightarrow> load_data [r] = []"
    by (simp add: load_data_single)
  ultimately show ?thesis by auto
qed

lemma load_data_concat:
  "load_data csv = concat (map (\<lambda>r. load_data [r]) csv)"
proof (induction csv)
  case Nil
  show ?case by (simp add: load_data_rowwise List.map_filter_simps)
next
  case (Cons r csv)
  then show ?case using load_data_Cons [of r csv] by simp
qed

lemma load_data_row_present:
  assumes "csv_Number_of_cases r = Some n"
    and "refArea r = Some (pre @ ''/resource/'' @ seg)" "seg \<noteq> []" "CHR ''/'' \<notin> set seg"
    and "refPeriod r = Some p"
    and "re_search match_year p = Some y" "re_search match_month p = Some m"
    and "1 \<le> nat_of_digits m" "nat_of_digits m \<le> 12"
    and "Timestamp_min \<le> (nat_of_digits y, nat_of_digits m, 1)"
    and "(nat_of_digits y, nat_of_digits m, 1) \<le> Timestamp_max"
  shows "load_data [r] =
     [\<lparr>Date = (nat_of_digits y, nat_of_digits m, 1), Year = y, Month = m,
       Governorate = map (\<lambda>c. if c = CHR ''_'' then CHR '' '' else c) seg,
       Number_of_cases = n\<rparr>]"
proof -
  have g: "str_extract match_resource (refArea r) = Some seg"
    using assms(2-4) re_search_resource [of seg pre] by (simp add: str_extract_def)
  have y: "str_extract match_year (refPeriod r) = Some y"
    and m: "str_extract match_month (refPeriod r) = Some m"
    using assms(5-7) by (simp_all add: str_extract_def)
  have ys: "length y = 4 \<and> list_all is_digit y"
    using assms(6) by (rule extract_year_shape)
  have ms: "length m = 2 \<and> list_all is_digit m"
    using assms(7) by (rule extract_month_shape)
  have d: "to_datetime_coerce (str_add (str_add (Some y) (Some ''-'')) (Some m))
      = Some (nat_of_digits y, nat_of_digits m, 1)"
    using ys ms assms(8-11) by (simp add: to_datetime_year_month)
  show ?thesis
    by (simp add: load_data_single row_cells_def assms(1) g y m d str_replace_underscore_def)
qed

lemma load_data_row_absent:
  assumes "csv_Number_of_cases r = None
     \<or> (\<nexists>pre seg. refArea r = Some (pre @ ''/resource/'' @ seg) \<and> seg \<noteq> [] \<and> CHR ''/'' \<notin> set seg)
     \<or> (\<nexists>p y m. refPeriod r = Some p \<and> re_search match_year p = Some y
            \<and> re_search match_month p = Some m
            \<and> 1 \<le> nat_of_digits m \<and> nat_of_digits m \<le> 12
            \<and> Timestamp_min \<le> (nat_of_digits y, nat_of_digits m, 1)
            \<and> (nat_of_digits y, nat_of_digits m, 1) \<le> Timestamp_max)"
  shows "load_data [r] = []"
proof (rule ccontr)
  assume ne: "load_data [r] \<noteq> []"
  let ?Y = "str_extract match_year (refPeriod r)"
  let ?M = "str_extract match_month (refPeriod r)"
  let ?G = "str_replace_underscore (str_extract match_resource (refArea r))"
  let ?D = "to_datetime_coerce (str_add (str_add ?Y (Some ''-'')) ?M)"
  from ne have n: "csv_Number_of_cases r \<noteq> None"
    and "dropna_row (row_cells r) \<noteq> None"
    by (auto simp: load_data_single split: if_splits option.splits)
  then obtain row where "dropna_row (?D, ?Y, ?M, ?G, csv_Number_of_cases r) = Some row"
    by (auto simp: row_cells_def)
  then obtain d y m g where d: "?D = Some d" and y: "?Y = Some y" and m: "?M = Some m"
    and g: "?G = Some g"
    by (cases "?D"; cases "?Y"; cases "?M"; cases "?G") auto
  from g obtain a seg where a: "refArea r = Some a" and seg: "re_search match_resource a = Some seg"
    by (auto simp: str_replace_underscore_def str_extract_def split: option.splits)
  from seg have "(\<exists>pre. a = pre @ ''/resource/'' @ seg) \<and> seg \<noteq> [] \<and> CHR ''/'' \<notin> set seg"
    by (simp add: re_search_resource_iff)
  with a have A: "\<exists>pre seg. refArea r = Some (pre @ ''/resource/'' @ seg) \<and> seg \<noteq> [] \<and> CHR ''/'' \<notin> set seg"
    by blast
  from y obtain p where p: "refPeriod r = Some p" and py: "re_search match_year p = Some y"
    by (auto simp: str_extract_def split: option.splits)
  from m p have pm: "re_search match_month p = Some m"
    by (auto simp: str_extract_def split: option.splits)
  have ys: "length y = 4" using py extract_year_shape by blast
  have ms: "length m = 2" using pm extract_month_shape by blast
  from d y m have "to_datetime_coerce (str_add (str_add (Some y) (Some ''-'')) (Some m)) = Some d"
    by simp
  then have "1 \<le> nat_of_digits m \<and> nat_of_digits m \<le> 12
            \<and> Timestamp_min \<le> (nat_of_digits y, nat_of_digits m, 1)
            \<and> (nat_of_digits y, nat_of_digits m, 1) \<le> Timestamp_max"
    using ys ms by (simp add: to_datetime_year_month split: if_splits)
  with p py pm have B: "\<exists>p y m. refPeriod r = Some p \<and> re_search match_year p = Some y
            \<and> re_search match_month p = Some m
            \<and> 1 \<le> nat_of_digits m \<and> nat_of_digits m \<le> 12
            \<and> Timestamp_min \<le> (nat_of_digits y, nat_of_digits m, 1)
            \<and> (nat_of_digits y, nat_of_digits m, 1) \<le> Timestamp_max"
    by blast
  from assms n A B show False by blast
qed

lemma re_search_first:
  "re_search m s = Some g \<Longrightarrow>
   \<exists>pre suf. s = pre @ suf \<and> m suf = Some g
     \<and> (\<forall>pre' suf'. s = pre' @ suf' \<and> length pre' < length pre \<longrightarrow> m suf' = None)"
proof (induction s)
  case Nil
  then show ?case
    by (intro exI [of _ "[]"]) simp
next
  case (Cons c cs)
  show ?case
  proof (cases "m (c # cs)")
    case None
    with Cons.prems have "re_search m cs = Some g" by simp
    from Cons.IH [OF this] obtain pre suf where cs: "cs = pre @ suf" and g: "m suf = Some g"
      and first: "\<And>pre' suf'. cs = pre' @ suf' \<Longrightarrow> length pre' < length pre \<Longrightarrow> m suf' = None"
      by auto
    have "m suf' = None" if a: "c # cs = pre' @ suf'" "length pre' < length (c # pre)"
      for pre' suf'
    proof (cases pre')
      case Nil
      with a None show ?thesis by simp
    next
      case (Cons c' pre'')
      with a have "cs = pre'' @ suf'" "length pre'' < length pre" by simp_all
      then show ?thesis by (rule first)
    qed
    with cs g show ?thesis
      by (intro exI [of _ "c # pre"] exI [of _ suf]) simp
  next
    case (Some a)
    with Cons.prems show ?thesis
      by (intro exI [of _ "[]"] exI [of _ "c # cs"]) simp
  qed
qed

lemma re_search_found:
  assumes "m suf = Some g"
    and "\<And>a b. pre = a @ b \<Longrightarrow> b \<noteq> [] \<Longrightarrow> m (b @ suf) = None"
  shows "re_search m (pre @ suf) = Some g"
  using assms(2)
proof (induction pre)
  case Nil
  from assms(1) show ?case by (cases suf) simp_all
next
  case (Cons c pre)
  have none: "m ((c # pre) @ suf) = None"
    by (rule Cons.prems [of "[]"]) simp_all
  have "re_search m (pre @ suf) = Some g"
  proof (rule Cons.IH)
    fix a b
    assume "pre = a @ b" "b \<noteq> []"
    then show "m (b @ suf) = None"
      using Cons.prems [of "c # a" b] by simp
  qed
  with none show ?case by simp
qed

lemma re_search_first_iff:
  "re_search m s = Some g \<longleftrightarrow>
     (\<exists>pre suf. s = pre @ suf \<and> m suf = Some g
        \<and> (\<forall>a b. s = a @ b \<and> length a < length pre \<longrightarrow> m b = None))"
proof
  assume "re_search m s = Some g"
  then show "\<exists>pre suf. s = pre @ suf \<and> m suf = Some g
        \<and> (\<forall>a b. s = a @ b \<and> length a < length pre \<longrightarrow> m b = None)"
    by (rule re_search_first)
next
  assume "\<exists>pre suf. s = pre @ suf \<and> m suf = Some g
        \<and> (\<forall>a b. s = a @ b \<and> length a < length pre \<longrightarrow> m b = None)"
  then obtain pre suf where s: "s = pre @ suf" and g: "m suf = Some g"
    and first: "\<And>a b. s = a @ b \<Longrightarrow> length a < length pre \<Longrightarrow> m b = None"
    by blast
  show "re_search m s = Some g"
    unfolding s using g
  proof (rule re_search_found)
    fix a b
    assume "pre = a @ b" "b \<noteq> []"
    then have "s = a @ (b @ suf)" "length a < length pre" by (simp_all add: s)
    then show "m (b @ suf) = None" by (rule first)
  qed
qed

lemma match_year_Some_iff:
  "match_year s = Some y \<longleftrightarrow> (\<exists>rest. s = y @ rest) \<and> length y = 4 \<and> list_all is_digit y"
proof
  assume a: "match_year s = Some y"
  then have y: "y = take 4 s" and l: "4 \<le> length s" and d: "list_all is_digit y"
    by (auto simp: match_year_def split: if_splits)
  have "s = take 4 s @ drop 4 s" by simp
  with y have "\<exists>rest. s = y @ rest" by blast
  moreover from y l have "length y = 4" by simp
  ultimately show "(\<exists>rest. s = y @ rest) \<and> length y = 4 \<and> list_all is_digit y"
    using d by simp
next
  assume "(\<exists>rest. s = y @ rest) \<and> length y = 4 \<and> list_all is_digit y"
  then obtain rest where "s = y @ rest" "length y = 4" "list_all is_digit y" by blast
  then show "match_year s = Some y" by (simp add: match_year_def)
qed

lemma match_year_None_iff:
  "match_year s = None \<longleftrightarrow>
     \<not> (\<exists>w rest. s = w @ rest \<and> length w = 4 \<and> list_all is_digit w)"
proof -
  have "match_year s = None \<longleftrightarrow> (\<forall>w. match_year s \<noteq> Some w)" by auto
  also have "\<dots> \<longleftrightarrow> \<not> (\<exists>w rest. s = w @ rest \<and> length w = 4 \<and> list_all is_digit w)"
    unfolding match_year_Some_iff by blast
  finally show ?thesis .
qed

lemma match_month_Some_iff:
  "match_month s = Some m \<longleftrightarrow>
     (\<exists>yy rest. s = m @ ''-'' @ yy @ rest \<and> length yy = 4 \<and> list_all is_digit yy)
     \<and> length m = 2 \<and> list_all is_digit m"
proof
  assume a: "match_month s = Some m"
  then have m: "m = take 2 s" and l: "7 \<le> length s" and dm: "list_all is_digit m"
    and dash: "s ! 2 = CHR ''-''" and dy: "list_all is_digit (take 4 (drop 3 s))"
    by (auto simp: match_month_def split: if_splits)
  have "s = take 2 s @ drop 2 s" by simp
  also have "drop 2 s = s ! 2 # drop 3 s"
    using l Cons_nth_drop_Suc [of 2 s] by simp
  also have "drop 3 s = take 4 (drop 3 s) @ drop 4 (drop 3 s)"
    by (rule append_take_drop_id [symmetric])
  finally have "s = m @ ''-'' @ take 4 (drop 3 s) @ drop 4 (drop 3 s)"
    using m dash by simp
  moreover have "length (take 4 (drop 3 s)) = 4" using l by simp
  ultimately have "\<exists>yy rest. s = m @ ''-'' @ yy @ rest \<and> length yy = 4 \<and> list_all is_digit yy"
    using dy by blast
  moreover from m l have "length m = 2" by simp
  ultimately show "(\<exists>yy rest. s = m @ ''-'' @ yy @ rest \<and> length yy = 4 \<and> list_all is_digit yy)
     \<and> length m = 2 \<and> list_all is_digit m"
    using dm by simp
next
  assume "(\<exists>yy rest. s = m @ ''-'' @ yy @ rest \<and> length yy = 4 \<and> list_all is_digit yy)
     \<and> length m = 2 \<and> list_all is_digit m"
  then obtain yy rest where s: "s = m @ ''-'' @ yy @ rest" and "length yy = 4"
    "list_all is_digit yy" "length m = 2" "list_all is_digit m"
    by blast
  then show "match_month s = Some m"
    unfolding s by (simp add: match_month_def nth_append)
qed

lemma match_month_None_iff:
  "match_month s = None \<longleftrightarrow>
     \<not> (\<exists>m yy rest. s = m @ ''-'' @ yy @ rest \<and> length m = 2 \<and> list_all is_digit m
           \<and> length yy = 4 \<and> list_all is_digit yy)"
proof -
  have "match_month s = None \<longleftrightarrow> (\<forall>m. match_month s \<noteq> Some m)" by auto
  also have "\<dots> \<longleftrightarrow> \<not> (\<exists>m yy rest. s = m @ ''-'' @ yy @ rest \<and> length m = 2
           \<and> list_all is_digit m \<and> length yy = 4 \<and> list_all is_digit yy)"
    unfolding match_month_Some_iff by blast
  finally show ?thesis .
qed

lemma first_four_digit_run_iff:
  "re_search match_year p = Some y \<longleftrightarrow> first_four_digit_run p y"
proof
  assume "re_search match_year p = Some y"
  then obtain pre suf where p: "p = pre @ suf" and y: "match_year suf = Some y"
    and first: "\<And>a b. p = a @ b \<Longrightarrow> length a < length pre \<Longrightarrow> match_year b = None"
    unfolding re_search_first_iff by blast
  from y obtain rest where suf: "suf = y @ rest" and ly: "length y = 4"
    and dy: "list_all is_digit y"
    unfolding match_year_Some_iff by blast
  have "length pre \<le> length a"
    if "p = a @ w @ b" "length w = 4" "list_all is_digit w" for a w b
  proof (rule ccontr)
    assume "\<not> length pre \<le> length a"
    then have "length a < length pre" by simp
    with that(1) have "match_year (w @ b) = None" by (rule first)
    with that(2,3) show False unfolding match_year_None_iff by blast
  qed
  with p suf ly dy show "first_four_digit_run p y"
    unfolding first_four_digit_run_def by blast
next
  assume "first_four_digit_run p y"
  then obtain pre suf where p: "p = pre @ y @ suf" and ly: "length y = 4"
    and dy: "list_all is_digit y"
    and first: "\<And>a w b. p = a @ w @ b \<Longrightarrow> length w = 4 \<Longrightarrow> list_all is_digit w
                  \<Longrightarrow> length pre \<le> length a"
    unfolding first_four_digit_run_def by blast
  have here: "match_year (y @ suf) = Some y"
    unfolding match_year_Some_iff using ly dy by blast
  have "match_year b = None" if "p = a @ b" "length a < length pre" for a b
  proof (rule ccontr)
    assume "match_year b \<noteq> None"
    then obtain w rest where "b = w @ rest" "length w = 4" "list_all is_digit w"
      unfolding match_year_None_iff by blast
    with that(1) have "length pre \<le> length a" by (intro first [of a w rest]) simp_all
    with that(2) show False by simp
  qed
  with p here show "re_search match_year p = Some y"
    unfolding re_search_first_iff by blast
qed

lemma two_digits_before_year_iff:
  "re_search match_month p = Some m \<longleftrightarrow> two_digits_before_year p m"
proof
  assume "re_search match_month p = Some m"
  then obtain pre suf where p: "p = pre @ suf" and m: "match_month suf = Some m"
    and first: "\<And>a b. p = a @ b \<Longrightarrow> length a < length pre \<Longrightarrow> match_month b = None"
    unfolding re_search_first_iff by blast
  from m obtain yy rest where suf: "suf = m @ ''-'' @ yy @ rest" and ly: "length yy = 4"
    and dy: "list_all is_digit yy" and lm: "length m = 2" and dm: "list_all is_digit m"
    unfolding match_month_Some_iff by blast
  have "length pre \<le> length a"
    if "p = a @ m' @ ''-'' @ yy' @ b" "length m' = 2" "list_all is_digit m'"
      "length yy' = 4" "list_all is_digit yy'" for a m' yy' b
  proof (rule ccontr)
    assume "\<not> length pre \<le> length a"
    then have "length a < length pre" by simp
    with that(1) have "match_month (m' @ ''-'' @ yy' @ b) = None" by (rule first)
    with that(2-5) show False unfolding match_month_None_iff by blast
  qed
  with p suf ly dy lm dm show "two_digits_before_year p m"
    unfolding two_digits_before_year_def by blast
next
  assume "two_digits_before_year p m"
  then obtain pre yy suf where p: "p = pre @ m @ ''-'' @ yy @ suf"
    and lm: "length m = 2" and dm: "list_all is_digit m"
    and ly: "length yy = 4" and dy: "list_all is_digit yy"
    and first: "\<And>a m' yy' b. p = a @ m' @ ''-'' @ yy' @ b \<Longrightarrow> length m' = 2
                  \<Longrightarrow> list_all is_digit m' \<Longrightarrow> length yy' = 4 \<Longrightarrow> list_all is_digit yy'
                  \<Longrightarrow> length pre \<le> length a"
    unfolding two_digits_before_year_def by blast
  have here: "match_month (m @ ''-'' @ yy @ suf) = Some m"
    unfolding match_month_Some_iff using lm dm ly dy by blast
  have "match_month b = None" if "p = a @ b" "length a < length pre" for a b
  proof (rule ccontr)
    assume "match_month b \<noteq> None"
    then obtain m' yy' rest where "b = m' @ ''-'' @ yy' @ rest" "length m' = 2"
      "list_all is_digit m'" "length yy' = 4" "list_all is_digit yy'"
      unfolding match_month_None_iff by blast
    with that(1) have "length pre \<le> length a"
      by (intro first [of a m' yy' rest]) simp_all
    with that(2) show False by simp
  qed
  with p here show "re_search match_month p = Some m"
    unfolding re_search_first_iff by blast
qed

lemma nat_of_digits_4:
  assumes "length y = 4"
  shows "nat_of_digits y =
     1000 * digit_val (y ! 0) + 100 * digit_val (y ! 1) + 10 * digit_val (y ! 2) + digit_val (y ! 3)"
proof -
  from assms obtain a b c d where "y = [a, b, c, d]"
    by (auto simp: numeral_eq_Suc length_Suc_conv)
  then show ?thesis by (simp add: nat_of_digits_def)
qed

lemma nat_of_digits_2:
  assumes "length m = 2"
  shows "nat_of_digits m = 10 * digit_val (m ! 0) + digit_val (m ! 1)"
proof -
  from assms obtain a b where "m = [a, b]"
    by (auto simp: numeral_eq_Suc length_Suc_conv)
  then show ?thesis by (simp add: nat_of_digits_def)
qed

text \<open>
  Claim C1, amended. The frame of \<^verbatim>\<open>load_data\<close> is the concatenation, in file order, of
  what each CSV line yields alone, and a line yields at most one row. Take a line with a
  non-null case count, a \<^verbatim>\<open>refArea\<close> that ends in \<^verbatim>\<open>/resource/\<close> followed by a non-empty
  segment free of \<^verbatim>\<open>/\<close>, and a \<^verbatim>\<open>refPeriod\<close> in which \<open>y\<close> is the first 4-digit run and
  \<open>m\<close> the first 2-digit run standing immediately before a dash and four digits (both
  read off the string itself, not off the regular expressions), such that \<open>m\<close> is a month
  from 01 to 12 and the month lies inside the representable range of timestamps. It
  yields exactly the row with Governorate the segment with underscores replaced by
  spaces, Year \<open>y\<close>, Month \<open>m\<close> and Date the first day of the month whose year and month
  are the decimal values of \<open>y\<close> and \<open>m\<close>. Every other line yields no row.
\<close>

theorem load_data_rows:
  "load_data csv = concat (map (\<lambda>r. load_data [r]) csv)
   \<and> (\<forall>(r::raw_record) n pre seg p y m.
         csv_Number_of_cases r = Some n
         \<and> refArea r = Some (pre @ ''/resource/'' @ seg) \<and> seg \<noteq> [] \<and> CHR ''/'' \<notin> set seg
         \<and> refPeriod r = Some p
         \<and> first_four_digit_run p y \<and> two_digits_before_year p m
         \<and> 1 \<le> nat_of_digits m \<and> nat_of_digits m \<le> 12
         \<and> Timestamp_min \<le> (nat_of_digits y, nat_of_digits m, 1)
         \<and> (nat_of_digits y, nat_of_digits m, 1) \<le> Timestamp_max
         \<longrightarrow> load_data [r] =
               [\<lparr>Date = (nat_of_digits y, nat_of_digits m, 1), Year = y, Month = m,
                 Governorate = map (\<lambda>c. if c = CHR ''_'' then CHR '' '' else c) seg,
                 Number_of_cases = n\<rparr>]
             \<and> nat_of_digits y =
                 1000 * digit_val (y ! 0) + 100 * digit_val (y ! 1) + 10 * digit_val (y ! 2)
                   + digit_val (y ! 3)
             \<and> nat_of_digits m = 10 * digit_val (m ! 0) + digit_val (m ! 1))
   \<and> (\<forall>r::raw_record. (csv_Number_of_cases r = None
          \<or> (\<nexists>pre seg. refArea r = Some (pre @ ''/resource/'' @ seg) \<and> seg \<noteq> []
                 \<and> CHR ''/'' \<notin> set seg)
          \<or> (\<nexists>p y m. refPeriod r = Some p
                 \<and> first_four_digit_run p y \<and> two_digits_before_year p m
                 \<and> 1 \<le> nat_of_digits m \<and> nat_of_digits m \<le> 12
                 \<and> Timestamp_min \<le> (nat_of_digits y, nat_of_digits m, 1)
                 \<and> (nat_of_digits y, nat_of_digits m, 1) \<le> Timestamp_max))
         \<longrightarrow> load_data [r] = [])"
proof (intro conjI allI impI)
  show "load_data csv = concat (map (\<lambda>r. load_data [r]) csv)"
    by (rule load_data_concat)
next
  fix r :: raw_record and n pre seg p y m
  assume a: "csv_Number_of_cases r = Some n
         \<and> refArea r = Some (pre @ ''/resource/'' @ seg) \<and> seg \<noteq> [] \<and> CHR ''/'' \<notin> set seg
         \<and> refPeriod r = Some p
         \<and> first_four_digit_run p y \<and> two_digits_before_year p m
         \<and> 1 \<le> nat_of_digits m \<and> nat_of_digits m \<le> 12
         \<and> Timestamp_min \<le> (nat_of_digits y, nat_of_digits m, 1)
         \<and> (nat_of_digits y, nat_of_digits m, 1) \<le> Timestamp_max"
  then have y: "re_search match_year p = Some y" and m: "re_search match_month p = Some m"
    by (simp_all add: first_four_digit_run_iff two_digits_before_year_iff)
  from a y m show "load_data [r] =
               [\<lparr>Date = (nat_of_digits y, nat_of_digits m, 1), Year = y, Month = m,
                 Governorate = map (\<lambda>c. if c = CHR ''_'' then CHR '' '' else c) seg,
                 Number_of_cases = n\<rparr>]"
    by (intro load_data_row_present [where pre = pre and p = p]) simp_all
  from y have "length y = 4" using extract_year_shape by blast
  then show "nat_of_digits y =
                 1000 * digit_val (y ! 0) + 100 * digit_val (y ! 1) + 10 * digit_val (y ! 2)
                   + digit_val (y ! 3)"
    by (rule nat_of_digits_4)
  from m have "length m = 2" using extract_month_shape by blast
  then show "nat_of_digits m = 10 * digit_val (m ! 0) + digit_val (m ! 1)"
    by (rule nat_of_digits_2)
next
  fix r :: raw_record
  assume "csv_Number_of_cases r = None
          \<or> (\<nexists>pre seg. refArea r = Some (pre @ ''/resource/'' @ seg) \<and> seg \<noteq> []
                 \<and> CHR ''/'' \<notin> set seg)
          \<or> (\<nexists>p y m. refPeriod r = Some p
                 \<and> first_four_digit_run p y \<and> two_digits_before_year p m
                 \<and> 1 \<le> nat_of_digits m \<and> nat_of_digits m \<le> 12
                 \<and> Timestamp_min \<le> (nat_of_digits y, nat_of_digits m, 1)
                 \<and> (nat_of_digits y, nat_of_digits m, 1) \<le> Timestamp_max)"
  then show "load_data [r] = []"
    unfolding first_four_digit_run_iff [symmetric] two_digits_before_year_iff [symmetric]
    by (rule load_data_row_absent)
qed

lemmas loader_defs =
  load_data_def dropna_def str_extract_def str_replace_underscore_def str_add_def
  match_resource_def match_year_def match_month_def to_datetime_coerce_def
  is_digit_def nat_of_digits_def digit_val_def Timestamp_min_def Timestamp_max_def

theorem load_data_rows_witness:
  "load_data
     [\<lparr>refArea = Some ''http://dbpedia.org/resource/Mount_Lebanon'',
       refPeriod = Some ''07-2019'', csv_Number_of_cases = Some 12\<rparr>,
      \<lparr>refArea = Some ''badformat'',
       refPeriod = Some ''08-2019'', csv_Number_of_cases = Some 3\<rparr>]
   = [\<lparr>Date = (2019, 7, 1), Year = ''2019'', Month = ''07'',
       Governorate = ''Mount Lebanon'', Number_of_cases = 12\<rparr>]"
proof -
  let ?good = "\<lparr>refArea = Some ''http://dbpedia.org/resource/Mount_Lebanon'',
       refPeriod = Some ''07-2019'', csv_Number_of_cases = Some (12::real)\<rparr>"
  let ?bad = "\<lparr>refArea = Some ''badformat'',
       refPeriod = Some ''08-2019'', csv_Number_of_cases = Some (3::real)\<rparr>"
  note rows = load_data_rows [of "[?good, ?bad]"]
  from rows have cat: "load_data [?good, ?bad] = load_data [?good] @ load_data [?bad]"
    by simp
  from rows have present: "\<And>(r :: raw_record) n pre seg p y m.
         csv_Number_of_cases r = Some n
         \<and> refArea r = Some (pre @ ''/resource/'' @ seg) \<and> seg \<noteq> [] \<and> CHR ''/'' \<notin> set seg
         \<and> refPeriod r = Some p
         \<and> first_four_digit_run p y \<and> two_digits_before_year p m
         \<and> 1 \<le> nat_of_digits m \<and> nat_of_digits m \<le> 12
         \<and> Timestamp_min \<le> (nat_of_digits y, nat_of_digits m, 1)
         \<and> (nat_of_digits y, nat_of_digits m, 1) \<le> Timestamp_max
         \<Longrightarrow> load_data [r] =
               [\<lparr>Date = (nat_of_digits y, nat_of_digits m, 1), Year = y, Month = m,
                 Governorate = map (\<lambda>c. if c = CHR ''_'' then CHR '' '' else c) seg,
                 Number_of_cases = n\<rparr>]"
    by blast
  from rows have absent: "\<And>r :: raw_record. \<nexists>pre seg. refArea r = Some (pre @ ''/resource/'' @ seg) \<and> seg \<noteq> []
                 \<and> CHR ''/'' \<notin> set seg \<Longrightarrow> load_data [r] = []"
    by blast
  have y: "first_four_digit_run ''07-2019'' ''2019''"
    unfolding first_four_digit_run_iff [symmetric]
    by (simp add: match_year_def is_digit_def)
  have m: "two_digits_before_year ''07-2019'' ''07''"
    unfolding two_digits_before_year_iff [symmetric]
    by (simp add: match_month_def is_digit_def)
  have "load_data [?good] =
     [\<lparr>Date = (nat_of_digits ''2019'', nat_of_digits ''07'', 1), Year = ''2019'', Month = ''07'',
       Governorate = map (\<lambda>c. if c = CHR ''_'' then CHR '' '' else c) ''Mount_Lebanon'',
       Number_of_cases = 12\<rparr>]"
    by (rule present [where pre = "''http://dbpedia.org''" and p = "''07-2019''"])
       (simp add: y m nat_of_digits_def digit_val_def Timestamp_min_def Timestamp_max_def)
  then have good: "load_data [?good] =
     [\<lparr>Date = (2019, 7, 1), Year = ''2019'', Month = ''07'',
       Governorate = ''Mount Lebanon'', Number_of_cases = 12\<rparr>]"
    by (simp add: nat_of_digits_def digit_val_def)
  have "\<nexists>pre seg. ''badformat'' = pre @ ''/resource/'' @ seg"
  proof
    assume "\<exists>pre seg. ''badformat'' = pre @ ''/resource/'' @ seg"
    then obtain pre seg where "''badformat'' = pre @ ''/resource/'' @ seg" by blast
    then have "set ''badformat'' = set (pre @ ''/resource/'' @ seg)" by simp
    then have "CHR ''/'' \<in> set ''badformat''" by simp
    then show False by simp
  qed
  then have bad: "load_data [?bad] = []"
    by (intro absent) simp
  from cat good bad show ?thesis by simp
qed

text \<open>
  Claim C1 as stated fails: month 13 stands before a dash and a four-digit year, so both
  patterns match, yet the date does not parse, is coerced to NaT and the row is dropped.
\<close>

theorem load_data_month_13_dropped:
  "re_search match_resource ''http://dbpedia.org/resource/Beirut'' = Some ''Beirut''
   \<and> re_search match_year ''13-2020'' = Some ''2020''
   \<and> re_search match_month ''13-2020'' = Some ''13''
   \<and> first_four_digit_run ''13-2020'' ''2020''
   \<and> two_digits_before_year ''13-2020'' ''13''
   \<and> load_data
       [\<lparr>refArea = Some ''http://dbpedia.org/resource/Beirut'',
         refPeriod = Some ''13-2020'', csv_Number_of_cases = Some 5\<rparr>] = []"
  unfolding first_four_digit_run_iff [symmetric] two_digits_before_year_iff [symmetric]
  by (simp add: loader_defs)

subsection \<open>Group-by: keys, entries, order\<close>

lemma groupby_keys: "map fst (groupby kvs) = sort (remdups (map fst kvs))"
  by (simp add: groupby_def comp_def)

lemma groupby_sum_keys: "map fst (groupby_sum kvs) = sort (remdups (map fst kvs))"
  by (simp add: groupby_sum_def groupby_def comp_def)

lemma groupby_mean_keys: "map fst (groupby_mean kvs) = sort (remdups (map fst kvs))"
  by (simp add: groupby_mean_def groupby_def comp_def)

lemma groupby_sum_distinct: "distinct (map fst (groupby_sum kvs))"
  by (simp add: groupby_sum_keys)

lemma groupby_sum_sorted: "sorted (map fst (groupby_sum kvs))"
  by (simp add: groupby_sum_keys)

lemma groupby_sum_strict: "sorted_wrt (<) (map fst (groupby_sum kvs))"
  using groupby_sum_sorted [of kvs] groupby_sum_distinct [of kvs]
  by (simp add: strict_sorted_iff)

lemma groupby_sum_length: "length (groupby_sum kvs) = length (remdups (map fst kvs))"
  using arg_cong [OF groupby_sum_keys [of kvs], of length] by simp

lemma set_groupby_sum:
  "set (groupby_sum kvs)
     = (\<lambda>k. (k, sum_list (map snd (filter (\<lambda>kv. fst kv = k) kvs)))) ` fst ` set kvs"
  by (auto simp: groupby_sum_def groupby_def image_iff)

lemma set_groupby_mean:
  "set (groupby_mean kvs)
     = (\<lambda>k. (k, sum_list (map snd (filter (\<lambda>kv. fst kv = k) kvs))
                 / real (length (filter (\<lambda>kv. fst kv = k) kvs)))) ` fst ` set kvs"
  by (auto simp: groupby_mean_def groupby_def image_iff)

lemma map_of_groupby_mean:
  "map_of (groupby_mean kvs) k =
     (if k \<in> fst ` set kvs
      then Some (sum_list (map snd (filter (\<lambda>kv. fst kv = k) kvs))
                 / real (length (filter (\<lambda>kv. fst kv = k) kvs)))
      else None)"
proof (cases "k \<in> fst ` set kvs")
  case True
  have d: "distinct (map fst (groupby_mean kvs))" by (simp add: groupby_mean_keys)
  have "(k, sum_list (map snd (filter (\<lambda>kv. fst kv = k) kvs))
                 / real (length (filter (\<lambda>kv. fst kv = k) kvs))) \<in> set (groupby_mean kvs)"
    using True unfolding set_groupby_mean by (rule imageI)
  with d True show ?thesis by simp
next
  case False
  then have "k \<notin> set (map fst (groupby_mean kvs))"
    by (simp add: groupby_mean_keys)
  then have "map_of (groupby_mean kvs) k = None"
    by (simp add: map_of_eq_None_iff)
  with False show ?thesis by simp
qed

lemma sort_key_groupby_sum: "sort_key fst (groupby_sum kvs) = groupby_sum kvs"
  by (rule sort_key_id_if_sorted) (rule groupby_sum_sorted)

lemma column_filter:
  "map snd (filter (\<lambda>kv. fst kv = k) (map (\<lambda>r. (key r, val r)) df))
     = map val (filter (\<lambda>r. key r = k) df)"
  by (induction df) auto

text \<open>
  Claim C9. For every table, the by-region view has one entry for each Governorate of
  the table and no other, the value of an entry is the sum of \<^verbatim>\<open>Number of cases\<close> over
  all rows of that Governorate, and the entries stand in ascending order of these sums.
\<close>

theorem gov_data_grouped_summed_sorted:
  "sorted (map snd (gov_data df))
   \<and> distinct (map fst (gov_data df))
   \<and> set (gov_data df)
       = (\<lambda>g. (g, sum_list (map Number_of_cases (filter (\<lambda>r. Governorate r = g) df))))
           ` Governorate ` set df"
proof (intro conjI)
  show "sorted (map snd (gov_data df))"
    by (simp add: gov_data_def)
  have "distinct (gov_data df) \<and> inj_on fst (set (gov_data df))"
    using groupby_sum_distinct [of "map (\<lambda>r. (Governorate r, Number_of_cases r)) df"]
    by (simp add: gov_data_def distinct_map)
  then show "distinct (map fst (gov_data df))"
    by (simp add: distinct_map)
  show "set (gov_data df)
       = (\<lambda>g. (g, sum_list (map Number_of_cases (filter (\<lambda>r. Governorate r = g) df))))
           ` Governorate ` set df"
    by (simp add: gov_data_def set_groupby_sum column_filter image_image)
qed

subsection \<open>The ordinal grows with the date\<close>

lemma days_before_year_Suc:
  assumes "1 \<le> y"
  shows "days_before_year (Suc y) = days_before_year y + (if is_leap y then 366 else 365)"
proof -
  obtain p where y: "y = Suc p" using assms by (cases y) auto
  define a b c where "a = p div 4" and "b = p div 100" and "c = p div 400"
  define ea eb ec :: nat where "ea = (if Suc p mod 4 = 0 then 1 else 0)"
    and "eb = (if Suc p mod 100 = 0 then 1 else 0)"
    and "ec = (if Suc p mod 400 = 0 then 1 else 0)"
  have le: "b \<le> a" unfolding a_def b_def by (rule div_le_mono2) simp_all
  have "Suc p mod 100 = 0 \<Longrightarrow> Suc p mod 4 = 0" by presburger
  then have e1: "eb \<le> ea" by (simp add: ea_def eb_def)
  have "Suc p mod 400 = 0 \<Longrightarrow> Suc p mod 100 = 0" by presburger
  then have e2: "ec \<le> eb" by (simp add: eb_def ec_def)
  have e3: "ea \<le> 1" by (simp add: ea_def)
  have leap: "is_leap (Suc p) \<longleftrightarrow> ea = 1 \<and> (eb = 0 \<or> ec = 1)"
    by (simp add: is_leap_def ea_def eb_def ec_def)
  have s4: "Suc p div 4 = a + ea" by (simp add: div_Suc a_def ea_def)
  have s100: "Suc p div 100 = b + eb" by (simp add: div_Suc b_def eb_def)
  have s400: "Suc p div 400 = c + ec" by (simp add: div_Suc c_def ec_def)
  have L: "days_before_year (Suc (Suc p)) = (p * 365 + 365) + (a + ea) - (b + eb) + (c + ec)"
    unfolding days_before_year_def Let_def diff_Suc_1 s4 s100 s400 by simp
  have R: "days_before_year (Suc p) = p * 365 + a - b + c"
    unfolding days_before_year_def Let_def diff_Suc_1 a_def b_def c_def by (rule refl)
  show ?thesis
    unfolding y L R leap using le e1 e2 e3 by (cases "ea = 1 \<and> (eb = 0 \<or> ec = 1)") auto
qed

lemma days_before_year_step:
  "1 \<le> y \<Longrightarrow> days_before_year y + 365 \<le> days_before_year (Suc y)"
  by (simp add: days_before_year_Suc)

lemma days_before_year_mono:
  assumes "1 \<le> y1" "y1 < y2"
  shows "days_before_year y1 + 365 \<le> days_before_year y2"
  using assms(2,1)
proof (induction y2)
  case 0
  then show ?case by simp
next
  case (Suc y2)
  show ?case
  proof (cases "y1 = y2")
    case True
    with Suc.prems show ?thesis by (simp add: days_before_year_step)
  next
    case False
    with Suc.prems have "y1 < y2" by simp
    with Suc have "days_before_year y1 + 365 \<le> days_before_year y2" by simp
    moreover have "days_before_year y2 + 365 \<le> days_before_year (Suc y2)"
      using Suc.prems \<open>y1 < y2\<close> by (intro days_before_year_step) simp
    ultimately show ?thesis by simp
  qed
qed

lemma month_cases:
  assumes "1 \<le> m" "m \<le> 12"
  shows "m = 1 \<or> m = 2 \<or> m = 3 \<or> m = 4 \<or> m = 5 \<or> m = 6 \<or> m = 7 \<or> m = 8 \<or> m = 9
     \<or> m = 10 \<or> m = 11 \<or> m = (12::nat)"
  using assms by arith

lemma days_before_month_Suc:
  assumes "1 \<le> m" "m < 12"
  shows "days_before_month y (Suc m) = days_before_month y m + days_in_month y m"
proof -
  from assms have "m = 1 \<or> m = 2 \<or> m = 3 \<or> m = 4 \<or> m = 5 \<or> m = 6 \<or> m = 7 \<or> m = 8 \<or> m = 9
     \<or> m = 10 \<or> m = 11" by arith
  then show ?thesis
    by (elim disjE) (simp_all add: days_before_month_def days_in_month_def)
qed

lemma days_in_month_pos:
  assumes "1 \<le> m" "m \<le> 12"
  shows "28 \<le> days_in_month y m \<and> days_in_month y m \<le> 31"
  using month_cases [OF assms]
  by (elim disjE) (simp_all add: days_in_month_def)

lemma days_before_month_le:
  assumes "1 \<le> m" "m \<le> 12"
  shows "days_before_month y m \<le> 335"
  using month_cases [OF assms]
  by (elim disjE) (simp_all add: days_before_month_def)

lemma days_before_month_mono:
  assumes "1 \<le> m1" "m1 < m2" "m2 \<le> 12"
  shows "days_before_month y m1 < days_before_month y m2"
  using assms(2,1,3)
proof (induction m2)
  case 0
  then show ?case by simp
next
  case (Suc m2)
  have step: "days_before_month y m2 < days_before_month y (Suc m2)" if "1 \<le> m2"
    using that Suc.prems days_in_month_pos [of m2 y]
    by (simp add: days_before_month_Suc)
  show ?case
  proof (cases "m1 = m2")
    case True
    with Suc.prems step show ?thesis by simp
  next
    case False
    with Suc.prems have lt: "m1 < m2" by simp
    with Suc have "days_before_month y m1 < days_before_month y m2" by simp
    moreover have "days_before_month y m2 < days_before_month y (Suc m2)"
      using lt Suc.prems by (intro step) simp
    ultimately show ?thesis by simp
  qed
qed

lemma toordinal_mono:
  assumes "1 \<le> y1" "1 \<le> m1" "m1 \<le> 12" "1 \<le> m2" "m2 \<le> 12"
    and "(y1, m1, 1::nat) < (y2, m2, 1)"
  shows "toordinal (y1, m1, 1) < toordinal (y2, m2, 1)"
proof (cases "y1 < y2")
  case True
  then have "days_before_year y1 + 365 \<le> days_before_year y2"
    using assms(1) by (intro days_before_year_mono)
  moreover have "days_before_month y1 m1 \<le> 335"
    using assms(2,3) by (rule days_before_month_le)
  ultimately show ?thesis by (simp add: toordinal_def)
next
  case False
  with assms(6) have "y1 = y2" "m1 < m2" by (auto simp: less_prod_def)
  then show ?thesis
    using days_before_month_mono [of m1 m2 y1] assms by (simp add: toordinal_def)
qed

subsection \<open>What every row of the clean table satisfies\<close>

lemma strptime_m_two_digits:
  assumes "length m = 2" "list_all is_digit m" "1 \<le> nat_of_digits m" "nat_of_digits m \<le> 12"
  shows "strptime_m m = Inr (nat_of_digits m)"
proof -
  from assms(1) obtain c1 c2 where m: "m = [c1, c2]"
    by (cases m; cases "tl m") auto
  with assms(2-4) show ?thesis
    by (simp add: strptime_m_def)
qed

lemma load_data_ok:
  assumes "r \<in> set (load_data csv)"
  shows "clean_row_ok r"
proof -
  from assms obtain r0 where r0: "r \<in> set (load_data [r0])"
    by (subst (asm) load_data_concat) auto
  then have "load_data [r0] \<noteq> []" by auto
  with load_data_row_absent [of r0]
  obtain p y m where p: "refPeriod r0 = Some p" and y: "re_search match_year p = Some y"
    and m: "re_search match_month p = Some m"
    and m1: "1 \<le> nat_of_digits m" and m12: "nat_of_digits m \<le> 12"
    and lo: "Timestamp_min \<le> (nat_of_digits y, nat_of_digits m, 1)"
    and hi: "(nat_of_digits y, nat_of_digits m, 1) \<le> Timestamp_max"
    and "csv_Number_of_cases r0 \<noteq> None"
    and "\<exists>pre seg. refArea r0 = Some (pre @ ''/resource/'' @ seg) \<and> seg \<noteq> [] \<and> CHR ''/'' \<notin> set seg"
    by blast
  then obtain n pre seg where n: "csv_Number_of_cases r0 = Some n"
    and a: "refArea r0 = Some (pre @ ''/resource/'' @ seg)" "seg \<noteq> []" "CHR ''/'' \<notin> set seg"
    by auto
  from load_data_row_present [OF n a p y m m1 m12 lo hi] r0
  have r: "r = \<lparr>Date = (nat_of_digits y, nat_of_digits m, 1), Year = y, Month = m,
       Governorate = map (\<lambda>c. if c = CHR ''_'' then CHR '' '' else c) seg,
       Number_of_cases = n\<rparr>"
    by simp
  have "strptime_m m = Inr (nat_of_digits m)"
    using extract_month_shape [OF m] m1 m12 by (intro strptime_m_two_digits) simp_all
  with m1 m12 lo hi show ?thesis
    unfolding r clean_row_ok_def by (simp del: less_eq_prod_simp)
qed

lemma df_filtered_subset: "set (df_filtered ys gs df) \<subseteq> set df"
  by (auto simp: df_filtered_def)

lemma df_filtered_ok:
  "r \<in> set (df_filtered ys gs (load_data csv)) \<Longrightarrow> clean_row_ok r"
  using df_filtered_subset load_data_ok by blast

lemma clean_row_okD:
  assumes "clean_row_ok r"
  obtains y m where "Date r = (y, m, 1)" "1 \<le> m" "m \<le> 12" "1677 \<le> y" "y \<le> 2262"
    "(y, m, 1::nat) \<le> Timestamp_max" "strptime_m (Month r) = Inr m"
proof -
  obtain y m d where d: "Date r = (y, m, d)" by (cases "Date r") auto
  with assms have "d = 1 \<and> 1 \<le> m \<and> m \<le> 12 \<and> Timestamp_min \<le> (y, m, d)
    \<and> (y, m, d) \<le> Timestamp_max \<and> strptime_m (Month r) = Inr m"
    unfolding clean_row_ok_def by (auto simp del: less_eq_prod_simp)
  then have "d = 1" "1 \<le> m" "m \<le> 12" "Timestamp_min \<le> (y, m, d)"
    "(y, m, d) \<le> Timestamp_max" "strptime_m (Month r) = Inr m"
    by blast+
  moreover from this have "1677 \<le> y" "y \<le> 2262"
    by (auto simp: Timestamp_min_def Timestamp_max_def)
  ultimately show ?thesis using d that by simp
qed

lemma toordinal_strict:
  assumes "clean_row_ok r1" "clean_row_ok r2" "Date r1 < Date r2"
  shows "toordinal (Date r1) < toordinal (Date r2)"
proof -
  from assms(1) obtain y1 m1 where d1: "Date r1 = (y1, m1, 1)" and a: "1 \<le> m1" "m1 \<le> 12" "1677 \<le> y1"
    by (rule clean_row_okD)
  from assms(2) obtain y2 m2 where d2: "Date r2 = (y2, m2, 1)" and b: "1 \<le> m2" "m2 \<le> 12"
    by (rule clean_row_okD)
  from a have "1 \<le> y1" by simp
  then show ?thesis
    using a b assms(3) unfolding d1 d2 by (intro toordinal_mono) simp_all
qed

subsection \<open>Month arithmetic of the forecast dates\<close>

lemma collect_Inr_iff: "collect xs = Inr ys \<longleftrightarrow> xs = map Inr ys"
proof (induction xs arbitrary: ys)
  case Nil
  show ?case by auto
next
  case (Cons x xs)
  show ?case
  proof (cases x)
    case (Inl e)
    then show ?thesis by (cases ys) auto
  next
    case (Inr v)
    show ?thesis
    proof (cases "collect xs")
      case (Inl e)
      with Cons [of "tl ys"] Inr show ?thesis by (cases ys) auto
    next
      case r: (Inr vs)
      with Cons [of vs] Cons [of "tl ys"] Inr show ?thesis by (cases ys) auto
    qed
  qed
qed

lemma collect_only_error:
  assumes "\<And>x e'. x \<in> set xs \<Longrightarrow> x = Inl e' \<Longrightarrow> e' = e" "Inl e \<in> set xs"
  shows "collect xs = Inl e"
  using assms
proof (induction xs)
  case Nil
  then show ?case by simp
next
  case (Cons x xs)
  show ?case
  proof (cases x)
    case (Inl e')
    with Cons.prems(1) [of x e'] show ?thesis by simp
  next
    case (Inr v)
    with Cons.prems(2) have in_xs: "Inl e \<in> set xs" by auto
    have "collect xs = Inl e"
    proof (rule Cons.IH)
      show "e' = e" if "x' \<in> set xs" "x' = Inl e'" for x' e'
        using Cons.prems(1) [of x' e'] that by simp
    qed (rule in_xs)
    with Inr show ?thesis by simp
  qed
qed

lemma upt_1_7: "[1..<7] = [1, 2, 3, 4, 5, 6 :: nat]"
  by (simp add: upt_rec)

lemma series_max_Some:
  assumes "ds \<noteq> []"
  shows "series_max ds = Some (Max (set ds))"
proof -
  from assms obtain d ds' where "ds = d # ds'" by (cases ds) auto
  then show ?thesis
    using Max.set_eq_fold [of d ds'] by (simp add: series_max_def)
qed

lemma series_max_None: "series_max [] = None"
  by (simp add: series_max_def)

lemma month_carry:
  fixes y k :: nat
  shows "k < 12 \<Longrightarrow> (12 * y + k) div 12 = y \<and> (12 * y + k) mod 12 = k"
    and "12 \<le> k \<Longrightarrow> k < 24 \<Longrightarrow> (12 * y + k) div 12 = y + 1 \<and> (12 * y + k) mod 12 = k - 12"
proof -
  show "(12 * y + k) div 12 = y \<and> (12 * y + k) mod 12 = k" if "k < 12"
    using that by simp
  show "(12 * y + k) div 12 = y + 1 \<and> (12 * y + k) mod 12 = k - 12" if "12 \<le> k" "k < 24"
  proof -
    define j where "j = k - 12"
    with that have k: "k = 12 + j" and j: "j < 12" by simp_all
    have "12 * y + k = 12 * (y + 1) + j" by (simp add: k)
    then show ?thesis using j by (simp add: k)
  qed
qed

lemma add_months_month_start:
  assumes "1 \<le> m" "m \<le> 12" "1 \<le> i" "i \<le> 12"
  shows "add_months (y, m, 1) i =
     (if ((12 * y + (m - 1 + i)) div 12, (12 * y + (m - 1 + i)) mod 12 + 1, 1) \<le> Timestamp_max
      then Inr ((12 * y + (m - 1 + i)) div 12, (12 * y + (m - 1 + i)) mod 12 + 1, 1)
      else Inl OutOfBoundsDatetime)"
proof (cases "12 < m + i")
  case True
  with assms have "12 \<le> m - 1 + i" "m - 1 + i < 24" by simp_all
  from month_carry(2) [OF this, of y] True assms
  have ym: "(12 * y + (m - 1 + i)) div 12 = y + 1"
    "(12 * y + (m - 1 + i)) mod 12 + 1 = m + i - 12"
    by simp_all
  have "1 \<le> m + i - 12" "m + i - 12 \<le> 12" using True assms by simp_all
  then have "28 \<le> days_in_month (y + 1) (m + i - 12)"
    using days_in_month_pos by blast
  then have "min (days_in_month (y + 1) (m + i - 12)) 1 = 1" by simp
  with True show ?thesis
    unfolding ym add_months_def by (simp add: Let_def del: less_eq_prod_simp)
next
  case False
  with assms have "m - 1 + i < 12" by simp
  from month_carry(1) [OF this, of y] False assms
  have ym: "(12 * y + (m - 1 + i)) div 12 = y"
    "(12 * y + (m - 1 + i)) mod 12 + 1 = m + i"
    by simp_all
  have "1 \<le> m + i" "m + i \<le> 12" using False assms by simp_all
  then have "28 \<le> days_in_month y (m + i)"
    using days_in_month_pos by blast
  then have "min (days_in_month y (m + i)) 1 = 1" by simp
  with False show ?thesis
    unfolding ym add_months_def by (simp add: Let_def del: less_eq_prod_simp)
qed

lemma month_start_less:
  fixes a b :: nat
  assumes "a < b"
  shows "(a div 12, a mod 12 + 1, 1::nat) < (b div 12, b mod 12 + 1, 1)"
proof (cases "a div 12 < b div 12")
  case True
  then show ?thesis by simp
next
  case False
  moreover have "a div 12 \<le> b div 12" using assms by (simp add: div_le_mono)
  ultimately have eq: "a div 12 = b div 12" by simp
  have "a = 12 * (a div 12) + a mod 12" "b = 12 * (b div 12) + b mod 12" by simp_all
  with eq assms have "a mod 12 < b mod 12" by linarith
  with eq show ?thesis by simp
qed

lemma month_start_index:
  assumes "1 \<le> m" "m \<le> 12"
  shows "month_start (month_index (y, m, d)) = (y, m, 1)"
proof -
  from assms have "m - 1 < 12" by simp
  from month_carry(1) [OF this, of y] assms show ?thesis
    by (simp add: month_start_def month_index_def)
qed

lemma month_index_start: "month_index (month_start k) = k"
  by (simp add: month_start_def month_index_def)

lemma month_start_mono: "a < b \<Longrightarrow> month_start a < month_start b"
  unfolding month_start_def by (rule month_start_less)

lemma add_months_clean:
  assumes "clean_row_ok r" "1 \<le> i" "i \<le> 12"
  shows "add_months (Date r) i =
     (if month_start (month_index (Date r) + i) \<le> Timestamp_max
      then Inr (month_start (month_index (Date r) + i))
      else Inl OutOfBoundsDatetime)"
proof -
  from assms(1) obtain y m where d: "Date r = (y, m, 1)" and m: "1 \<le> m" "m \<le> 12"
    by (rule clean_row_okD)
  have idx: "month_index (y, m, 1) + i = 12 * y + (m - 1 + i)"
    by (simp add: month_index_def)
  show ?thesis
    unfolding d idx month_start_def by (rule add_months_month_start [OF m assms(2,3)])
qed

lemma future_dates_clean:
  assumes "clean_row_ok r"
  shows "future_dates (Date r) =
     (if month_start (month_index (Date r) + 6) \<le> Timestamp_max
      then Inr (map (\<lambda>i. month_start (month_index (Date r) + i)) [1..<7])
      else Inl OutOfBoundsDatetime)"
proof -
  let ?k = "month_index (Date r)"
  have am: "add_months (Date r) i =
     (if month_start (?k + i) \<le> Timestamp_max then Inr (month_start (?k + i))
      else Inl OutOfBoundsDatetime)" if "1 \<le> i" "i \<le> 12" for i
    using assms that by (rule add_months_clean)
  have le: "month_start (?k + i) \<le> month_start (?k + 6)" if "i \<le> 6" for i
  proof (cases "i = 6")
    case True
    then show ?thesis by simp
  next
    case False
    with that have "?k + i < ?k + 6" by simp
    then show ?thesis by (intro less_imp_le month_start_mono)
  qed
  show ?thesis
  proof (cases "month_start (?k + 6) \<le> Timestamp_max")
    case True
    have b: "month_start (?k + i) \<le> Timestamp_max" if "i \<le> 6" for i
      using le [OF that] True by (rule order_trans)
    have ok: "add_months (Date r) i = Inr (month_start (?k + i))" if "1 \<le> i" "i \<le> 6" for i
      using am [of i] b [of i] that by (simp del: less_eq_prod_simp)
    have "map (add_months (Date r)) [1, 2, 3, 4, 5, 6]
        = map Inr (map (\<lambda>i. month_start (?k + i)) [1, 2, 3, 4, 5, 6])"
      using ok [of 1] ok [of 2] ok [of 3] ok [of 4] ok [of 5] ok [of 6]
      by (simp del: less_eq_prod_simp)
    then have "collect (map (add_months (Date r)) [1, 2, 3, 4, 5, 6])
        = Inr (map (\<lambda>i. month_start (?k + i)) [1, 2, 3, 4, 5, 6])"
      by (simp only: collect_Inr_iff)
    with True show ?thesis
      by (simp only: future_dates_def upt_1_7 if_True)
  next
    case False
    have "collect (map (add_months (Date r)) [1, 2, 3, 4, 5, 6]) = Inl OutOfBoundsDatetime"
    proof (rule collect_only_error)
      fix x e'
      assume "x \<in> set (map (add_months (Date r)) [1, 2, 3, 4, 5, 6])" and x: "x = Inl e'"
      then obtain i where i: "i \<in> set [1, 2, 3, 4, 5, 6::nat]" and "x = add_months (Date r) i"
        unfolding set_map by blast
      moreover from i have "1 \<le> i" "i \<le> 12" by auto
      ultimately show "e' = OutOfBoundsDatetime"
        using am [of i] x by (simp del: less_eq_prod_simp split: if_splits)
    next
      have "add_months (Date r) 6 = Inl OutOfBoundsDatetime"
        using False by (simp add: am del: less_eq_prod_simp)
      then show "Inl OutOfBoundsDatetime \<in> set (map (add_months (Date r)) [1, 2, 3, 4, 5, 6])"
        by simp
    qed
    with False show ?thesis
      by (simp only: future_dates_def upt_1_7 if_False)
  qed
qed

subsection \<open>The fitted line is the least-squares line\<close>

lemma sum_list_squares_zero:
  fixes f :: "'a \<Rightarrow> real"
  assumes "sum_list (map (\<lambda>p. f p * f p) ps) = 0" "p \<in> set ps"
  shows "f p = 0"
  using assms
proof (induction ps)
  case Nil
  then show ?case by simp
next
  case (Cons q ps)
  have nn: "0 \<le> sum_list (map (\<lambda>p. f p * f p) ps)"
    by (rule sum_list_nonneg) auto
  have "0 \<le> f q * f q" by simp
  with nn Cons.prems(1) have z: "f q * f q = 0" "sum_list (map (\<lambda>p. f p * f p) ps) = 0"
    by (simp_all add: add_nonneg_eq_0_iff)
  show ?case
  proof (cases "p = q")
    case True
    with z show ?thesis by simp
  next
    case False
    with Cons.prems(2) have "p \<in> set ps" by simp
    with z Cons.IH show ?thesis by simp
  qed
qed

lemma sum_list_centred:
  fixes f :: "'a \<Rightarrow> real"
  assumes "ps \<noteq> []"
  shows "sum_list (map (\<lambda>p. f p - sum_list (map f ps) / real (length ps)) ps) = 0"
proof -
  have "sum_list (map (\<lambda>p. f p - sum_list (map f ps) / real (length ps)) ps)
      = sum_list (map f ps) - real (length ps) * (sum_list (map f ps) / real (length ps))"
    by (simp add: sum_list_subtractf sum_list_triv)
  also have "\<dots> = 0" using assms by simp
  finally show ?thesis .
qed

lemma least_squares_decomposition:
  fixes ps :: "(real \<times> real) list"
  assumes ne: "ps \<noteq> []"
    and xm_def: "xm = sum_list (map fst ps) / real (length ps)"
    and ym_def: "ym = sum_list (map snd ps) / real (length ps)"
    and sxx_def: "sxx = sum_list (map (\<lambda>p. (fst p - xm) * (fst p - xm)) ps)"
    and sxy_def: "sxy = sum_list (map (\<lambda>p. (fst p - xm) * (snd p - ym)) ps)"
    and coef_def: "coef = (if sxx = 0 then 0 else sxy / sxx)"
    and icpt_def: "icpt = ym - xm * coef"
  shows "sum_list (map (\<lambda>p. (snd p - (a * fst p + b))\<^sup>2) ps)
     = sum_list (map (\<lambda>p. (snd p - (coef * fst p + icpt))\<^sup>2) ps)
       + sum_list (map (\<lambda>p. ((coef - a) * (fst p - xm) + ((coef - a) * xm + icpt - b))\<^sup>2) ps)"
proof -
  define u where "u = (\<lambda>p :: real \<times> real. fst p - xm)"
  define w where "w = (\<lambda>p :: real \<times> real. snd p - ym)"
  define r where "r = (\<lambda>p :: real \<times> real. snd p - (coef * fst p + icpt))"
  define \<alpha> where "\<alpha> = coef - a"
  define \<beta> where "\<beta> = (coef - a) * xm + icpt - b"
  have su: "sum_list (map u ps) = 0"
    unfolding u_def xm_def using ne by (rule sum_list_centred)
  have sw: "sum_list (map w ps) = 0"
    unfolding w_def ym_def using ne by (rule sum_list_centred)
  have r_eq: "r p = w p - coef * u p" for p
    by (simp add: r_def w_def u_def icpt_def algebra_simps)
  have "sum_list (map r ps) = sum_list (map (\<lambda>p. w p - coef * u p) ps)"
    by (rule arg_cong [where f = sum_list], rule map_cong) (simp_all add: r_eq)
  also have "\<dots> = sum_list (map w ps) - coef * sum_list (map u ps)"
    by (simp add: sum_list_subtractf sum_list_const_mult)
  finally have sr: "sum_list (map r ps) = 0"
    by (simp add: su sw)
  have suu: "sum_list (map (\<lambda>p. u p * u p) ps) = sxx"
    by (simp add: u_def sxx_def)
  have suw: "sum_list (map (\<lambda>p. u p * w p) ps) = sxy"
    by (simp add: u_def w_def sxy_def)
  have "sum_list (map (\<lambda>p. r p * u p) ps)
      = sum_list (map (\<lambda>p. u p * w p - coef * (u p * u p)) ps)"
    by (rule arg_cong [where f = sum_list], rule map_cong) (simp_all add: r_eq algebra_simps)
  also have "\<dots> = sxy - coef * sxx"
    by (simp add: sum_list_subtractf sum_list_const_mult suu suw)
  finally have sru': "sum_list (map (\<lambda>p. r p * u p) ps) = sxy - coef * sxx" .
  have sru: "sum_list (map (\<lambda>p. r p * u p) ps) = 0"
  proof (cases "sxx = 0")
    case True
    have "u p = 0" if "p \<in> set ps" for p
      using suu True that sum_list_squares_zero [of u ps p] by simp
    then have "sum_list (map (\<lambda>p. r p * u p) ps) = sum_list (map (\<lambda>p. 0) ps)"
      by (intro arg_cong [where f = sum_list] map_cong) simp_all
    also have "\<dots> = 0" by simp
    finally show ?thesis .
  next
    case False
    then show ?thesis by (simp add: sru' coef_def)
  qed
  have point: "(snd p - (a * fst p + b))\<^sup>2
      = (r p)\<^sup>2 + (\<alpha> * u p + \<beta>)\<^sup>2 + (2 * \<alpha> * (r p * u p) + 2 * \<beta> * r p)" for p
    by (simp add: r_def u_def \<alpha>_def \<beta>_def power2_eq_square algebra_simps)
  have "sum_list (map (\<lambda>p. (snd p - (a * fst p + b))\<^sup>2) ps)
      = sum_list (map (\<lambda>p. (r p)\<^sup>2) ps) + sum_list (map (\<lambda>p. (\<alpha> * u p + \<beta>)\<^sup>2) ps)
        + (2 * \<alpha> * sum_list (map (\<lambda>p. r p * u p) ps) + 2 * \<beta> * sum_list (map r ps))"
    by (simp only: point sum_list_addf sum_list_const_mult)
  also have "\<dots> = sum_list (map (\<lambda>p. (r p)\<^sup>2) ps) + sum_list (map (\<lambda>p. (\<alpha> * u p + \<beta>)\<^sup>2) ps)"
    by (simp add: sru sr)
  finally show ?thesis
    by (simp only: r_def u_def \<alpha>_def \<beta>_def)
qed

lemma fit_line:
  assumes "X \<noteq> []" "length X = length y"
    and xm_def: "xm = sum_list (map fst (zip X y)) / real (length (zip X y))"
    and ym_def: "ym = sum_list (map snd (zip X y)) / real (length (zip X y))"
    and sxx_def: "sxx = sum_list (map (\<lambda>p. (fst p - xm) * (fst p - xm)) (zip X y))"
    and sxy_def: "sxy = sum_list (map (\<lambda>p. (fst p - xm) * (snd p - ym)) (zip X y))"
    and coef_def: "coef = (if sxx = 0 then 0 else sxy / sxx)"
    and icpt_def: "icpt = ym - xm * coef"
  shows "LinearRegression_fit X y = Inr (coef, icpt)"
proof -
  have fst_ps: "map fst (zip X y) = X" and snd_ps: "map snd (zip X y) = y"
    and len: "length (zip X y) = length X"
    using assms(2) by simp_all
  have xm: "sum_list X / real (length X) = xm"
    using assms(2) by (simp add: xm_def fst_ps)
  have ym: "sum_list y / real (length X) = ym"
    using assms(2) by (simp add: ym_def snd_ps)
  have "sum_list (map (\<lambda>x. x * x) (map (\<lambda>x. x - xm) X))
      = sum_list (map (\<lambda>x. x * x) (map (\<lambda>x. x - xm) (map fst (zip X y))))"
    by (simp only: fst_ps)
  also have "\<dots> = sxx"
    by (simp add: sxx_def comp_def)
  finally have sxx: "sum_list (map (\<lambda>x. x * x) (map (\<lambda>x. x - xm) X)) = sxx" .
  have "zip (map (\<lambda>x. x - xm) X) (map (\<lambda>v. v - ym) y)
      = map (\<lambda>p. (fst p - xm, snd p - ym)) (zip X y)"
    by (simp add: zip_map_map case_prod_beta)
  then have sxy: "sum_list (map (\<lambda>(x, v). x * v) (zip (map (\<lambda>x. x - xm) X) (map (\<lambda>v. v - ym) y)))
      = sxy"
    by (simp add: sxy_def comp_def)
  show ?thesis
    using assms(1,2) unfolding LinearRegression_fit_def Let_def xm ym sxx sxy coef_def icpt_def
    by simp
qed

lemma rss_zip:
  "residual_sum_of_squares (a, b) X y
     = sum_list (map (\<lambda>p. (snd p - (a * fst p + b))\<^sup>2) (zip X y))"
  unfolding residual_sum_of_squares_def predict_def
  by (rule arg_cong [where f = sum_list], rule map_cong) (simp_all add: case_prod_beta)

lemma fit_decomposition:
  assumes "LinearRegression_fit X y = Inr (c, i)"
  shows "\<exists>xm. \<forall>a b. residual_sum_of_squares (a, b) X y
     = residual_sum_of_squares (c, i) X y
       + sum_list (map (\<lambda>p. ((c - a) * (fst p - xm) + ((c - a) * xm + i - b))\<^sup>2) (zip X y))"
proof -
  from assms have ne: "X \<noteq> []" and len: "length X = length y"
    by (auto simp: LinearRegression_fit_def split: if_splits)
  then have ps: "zip X y \<noteq> []" by (cases X; cases y) auto
  define xm where "xm = sum_list (map fst (zip X y)) / real (length (zip X y))"
  define ym where "ym = sum_list (map snd (zip X y)) / real (length (zip X y))"
  define sxx where "sxx = sum_list (map (\<lambda>p. (fst p - xm) * (fst p - xm)) (zip X y))"
  define sxy where "sxy = sum_list (map (\<lambda>p. (fst p - xm) * (snd p - ym)) (zip X y))"
  define coef where "coef = (if sxx = 0 then 0 else sxy / sxx)"
  define icpt where "icpt = ym - xm * coef"
  have "LinearRegression_fit X y = Inr (coef, icpt)"
    using ne len xm_def ym_def sxx_def sxy_def coef_def icpt_def by (rule fit_line)
  with assms have c: "coef = c" and i: "icpt = i" by simp_all
  have "\<forall>a b. residual_sum_of_squares (a, b) X y
     = residual_sum_of_squares (c, i) X y
       + sum_list (map (\<lambda>p. ((c - a) * (fst p - xm) + ((c - a) * xm + i - b))\<^sup>2) (zip X y))"
    unfolding rss_zip c [symmetric] i [symmetric]
    using least_squares_decomposition [OF ps xm_def ym_def sxx_def sxy_def coef_def icpt_def]
    by blast
  then show ?thesis ..
qed

lemma fit_minimises:
  assumes "LinearRegression_fit X y = Inr model"
  shows "residual_sum_of_squares model X y \<le> residual_sum_of_squares (a, b) X y"
proof -
  obtain c i where model: "model = (c, i)" by (cases model)
  from fit_decomposition [OF assms [unfolded model]] obtain xm where
    dec: "residual_sum_of_squares (a, b) X y
     = residual_sum_of_squares (c, i) X y
       + sum_list (map (\<lambda>p. ((c - a) * (fst p - xm) + ((c - a) * xm + i - b))\<^sup>2) (zip X y))"
    by blast
  have "0 \<le> sum_list (map (\<lambda>p. ((c - a) * (fst p - xm) + ((c - a) * xm + i - b))\<^sup>2) (zip X y))"
    by (rule sum_list_nonneg) auto
  with dec show ?thesis unfolding model by simp
qed

lemma fit_unique:
  assumes fit: "LinearRegression_fit X y = Inr model"
    and two: "x1 \<in> set X" "x2 \<in> set X" "x1 \<noteq> x2"
    and le: "residual_sum_of_squares (a, b) X y \<le> residual_sum_of_squares model X y"
  shows "(a, b) = model"
proof -
  from fit have len: "length X = length y"
    by (auto simp: LinearRegression_fit_def split: if_splits)
  obtain c i where model: "model = (c, i)" by (cases model)
  from fit_decomposition [OF fit [unfolded model]] obtain xm where
    dec: "residual_sum_of_squares (a, b) X y
     = residual_sum_of_squares (c, i) X y
       + sum_list (map (\<lambda>p. ((c - a) * (fst p - xm) + ((c - a) * xm + i - b))\<^sup>2) (zip X y))"
    by blast
  define t where "t = (\<lambda>p :: real \<times> real. (c - a) * (fst p - xm) + ((c - a) * xm + i - b))"
  from dec le have "sum_list (map (\<lambda>p. (t p)\<^sup>2) (zip X y)) \<le> 0"
    unfolding model t_def by simp
  moreover have "0 \<le> sum_list (map (\<lambda>p. (t p)\<^sup>2) (zip X y))"
    by (rule sum_list_nonneg) auto
  ultimately have "sum_list (map (\<lambda>p. t p * t p) (zip X y)) = 0"
    by (simp add: power2_eq_square)
  then have zero: "t p = 0" if "p \<in> set (zip X y)" for p
    using that by (rule sum_list_squares_zero)
  from two(1) len obtain v1 where p1: "(x1, v1) \<in> set (zip X y)"
    by (metis in_set_impl_in_set_zip1)
  from two(2) len obtain v2 where p2: "(x2, v2) \<in> set (zip X y)"
    by (metis in_set_impl_in_set_zip1)
  from zero [OF p1] zero [OF p2] have "t (x1, v1) - t (x2, v2) = 0" by simp
  then have "(c - a) * (x1 - x2) = 0" by (simp add: t_def algebra_simps)
  with two(3) have a: "a = c" by simp
  with zero [OF p1] have "b = i" by (simp add: t_def)
  with a show ?thesis by (simp add: model)
qed

lemma fit_empty: "LinearRegression_fit [] [] = Inl ValueError"
  by (simp add: LinearRegression_fit_def)

lemma fit_single: "LinearRegression_fit [x] [v] = Inr (0, v)"
  by (simp add: LinearRegression_fit_def)

subsection \<open>Ordinals and month steps in 2020\<close>

lemma toordinal_2020:
  "toordinal (2020, 1, 1) = 737425" "toordinal (2020, 2, 1) = 737456"
  "toordinal (2020, 3, 1) = 737485" "toordinal (2020, 4, 1) = 737516"
  "toordinal (2020, 5, 1) = 737546" "toordinal (2020, 6, 1) = 737577"
  "toordinal (2020, 7, 1) = 737607" "toordinal (2020, 8, 1) = 737638"
  by (simp_all add: toordinal_def days_before_year_def days_before_month_def is_leap_def)

lemma future_dates_2020_02:
  "future_dates (2020, 2, 1) =
     Inr [(2020, 3, 1), (2020, 4, 1), (2020, 5, 1), (2020, 6, 1), (2020, 7, 1), (2020, 8, 1)]"
  unfolding future_dates_def upt_1_7
  by (simp add: add_months_def days_in_month_def Timestamp_max_def is_leap_def)

subsection \<open>The forecast\<close>

lemma trend_keys: "map fst (trend df) = sort (remdups (map Date df))"
  by (simp add: trend_def groupby_sum_keys comp_def)

lemma trend_dates: "set (map fst (trend df)) = Date ` set df"
  by (simp add: trend_keys)

lemma length_trend: "length (trend df) = kpi_months_covered df"
  using arg_cong [OF trend_keys [of df], of length] by (simp add: kpi_months_covered_def)

lemma trend_Nil_iff: "trend df = [] \<longleftrightarrow> df = []"
proof -
  have "trend df = [] \<longleftrightarrow> map fst (trend df) = []" by simp
  also have "\<dots> \<longleftrightarrow> df = []"
    unfolding trend_keys by (metis map_is_Nil_conv remdups_eq_nil_iff set_empty set_sort)
  finally show ?thesis .
qed

lemma trend_strict: "sorted_wrt (<) (map fst (trend df))"
  unfolding trend_def by (rule groupby_sum_strict)

lemma monthly_cases_trend:
  "monthly_cases df = map (\<lambda>(d, c). (d, c, toordinal d)) (trend df)"
  by (simp add: monthly_cases_def trend_def sort_key_groupby_sum)

lemma series_max_trend:
  assumes "df \<noteq> []"
  shows "series_max (map fst (trend df)) = Some (Max (Date ` set df))"
proof -
  from assms have "map fst (trend df) \<noteq> []" by (simp add: trend_Nil_iff)
  then have "series_max (map fst (trend df)) = Some (Max (set (map fst (trend df))))"
    by (rule series_max_Some)
  then show ?thesis by (simp only: trend_dates)
qed

lemma forecast_df_unfold:
  "forecast_df df =
     (case LinearRegression_fit (map (\<lambda>(d, c). real (toordinal d)) (trend df)) (map snd (trend df)) of
        Inl e \<Rightarrow> Inl e
      | Inr model \<Rightarrow>
          (case series_max (map fst (trend df)) of
             None \<Rightarrow> Inl ValueError
           | Some last_date \<Rightarrow>
               (case future_dates last_date of
                  Inl e \<Rightarrow> Inl e
                | Inr fd \<Rightarrow> Inr (map (\<lambda>d. (d, predict model (real (toordinal d)))) fd))))"
proof -
  have X: "map (\<lambda>(d, c, ordinal). real ordinal) (monthly_cases df)
      = map (\<lambda>(d, c). real (toordinal d)) (trend df)"
    by (simp add: monthly_cases_trend case_prod_beta comp_def)
  have y: "map (\<lambda>(d, c, ordinal). c) (monthly_cases df) = map snd (trend df)"
    by (simp add: monthly_cases_trend case_prod_beta comp_def)
  have d: "map fst (monthly_cases df) = map fst (trend df)"
    by (simp add: monthly_cases_trend case_prod_beta comp_def)
  have z: "zip fd (map f fd) = map (\<lambda>d. (d, f d)) fd" for fd :: "timestamp list" and f :: "timestamp \<Rightarrow> real"
    by (induction fd) auto
  show ?thesis
    unfolding forecast_df_def Let_def X y d z ..
qed

lemma forecast_df_empty: "forecast_df [] = Inl ValueError"
  by (simp add: forecast_df_unfold trend_def groupby_sum_def groupby_def fit_empty)

lemma max_date_row:
  assumes "df \<noteq> []"
  obtains r where "r \<in> set df" "Date r = Max (Date ` set df)"
proof -
  from assms have "Max (Date ` set df) \<in> Date ` set df"
    by (intro Max_in) simp_all
  with that show ?thesis by auto
qed

lemma ordinals_strict:
  assumes "\<And>r. r \<in> set df \<Longrightarrow> clean_row_ok r"
  shows "sorted_wrt (<) (map (\<lambda>(d, c). toordinal d) (trend df))"
proof -
  have "sorted_wrt (\<lambda>d1 d2. toordinal d1 < toordinal d2) (map fst (trend df))"
  proof (rule sorted_wrt_mono_rel [OF _ trend_strict])
    fix d1 d2
    assume "d1 \<in> set (map fst (trend df))" "d2 \<in> set (map fst (trend df))" "d1 < d2"
    then obtain r1 r2 where "r1 \<in> set df" "r2 \<in> set df" "d1 = Date r1" "d2 = Date r2"
      "Date r1 < Date r2"
      unfolding trend_dates by auto
    then show "toordinal d1 < toordinal d2"
      using assms by (simp add: toordinal_strict)
  qed
  then show ?thesis
    by (simp add: sorted_wrt_map case_prod_beta)
qed

lemma month_start_mono_le:
  assumes "a \<le> b"
  shows "month_start a \<le> month_start b"
proof (cases "a = b")
  case True
  then show ?thesis by simp
next
  case False
  with assms have "a < b" by simp
  then have "month_start a < month_start b" by (rule month_start_mono)
  then show ?thesis by (rule less_imp_le)
qed

lemma late_month_representable:
  assumes "clean_row_ok r" "Date r \<le> (2261, 10, 1)"
  shows "month_start (month_index (Date r) + 6) \<le> Timestamp_max"
proof -
  from assms(1) obtain y m where d: "Date r = (y, m, 1)" and m: "1 \<le> m" "m \<le> 12"
    by (rule clean_row_okD)
  from assms(2) m have "12 * y + (m - 1) + 6 \<le> 12 * 2262 + 3"
    unfolding d by auto
  then have "month_index (Date r) + 6 \<le> 12 * 2262 + 3"
    unfolding d month_index_def by simp
  then have "month_start (month_index (Date r) + 6) \<le> month_start (12 * 2262 + 3)"
    by (rule month_start_mono_le)
  also have "month_start (12 * 2262 + 3) \<le> Timestamp_max"
    by (simp add: month_start_def Timestamp_max_def)
  finally show ?thesis .
qed

lemma forecast_df_clean:
  assumes ok: "\<And>r. r \<in> set df \<Longrightarrow> clean_row_ok r"
    and fit: "LinearRegression_fit (map (\<lambda>(d, c). real (toordinal d)) (trend df)) (map snd (trend df))
               = Inr (slope, intercept)"
  shows "forecast_df df =
     (if month_start (month_index (Max (Date ` set df)) + 6) \<le> Timestamp_max
      then Inr (map (\<lambda>i. (month_start (month_index (Max (Date ` set df)) + i),
                         slope * real (toordinal (month_start (month_index (Max (Date ` set df)) + i)))
                           + intercept)) [1..<7])
      else Inl OutOfBoundsDatetime)"
proof -
  from fit have "trend df \<noteq> []"
    by (auto simp: LinearRegression_fit_def split: if_splits)
  then have ne: "df \<noteq> []" by (simp add: trend_Nil_iff)
  then obtain r where r: "r \<in> set df" and last: "Date r = Max (Date ` set df)"
    by (rule max_date_row)
  have fd: "future_dates (Max (Date ` set df)) =
     (if month_start (month_index (Max (Date ` set df)) + 6) \<le> Timestamp_max
      then Inr (map (\<lambda>i. month_start (month_index (Max (Date ` set df)) + i)) [1..<7])
      else Inl OutOfBoundsDatetime)"
    using future_dates_clean [OF ok [OF r]] unfolding last .
  show ?thesis
    unfolding forecast_df_unfold fit series_max_trend [OF ne]
    by (simp add: fd predict_def comp_def del: less_eq_prod_simp upt_Suc)
qed

text \<open>
  Claim C2, amended. For every filtered table with at least 2 distinct dates whose latest
  date is not after October 2261 (so that the sixth month after it is still a
  representable timestamp), the fit returns a line (slope, intercept) that is the
  least-squares line of the by-date totals against the date ordinals: its residual sum
  of squares is minimal and no other line attains it. The forecast is exactly the 6 pairs
  whose dates are the first days of the 1st to the 6th calendar month after the latest
  observed date, in strictly increasing order, each with the value of that line at the
  ordinal of its date, whatever its sign.
\<close>

theorem forecast_six_months:
  assumes "2 \<le> kpi_months_covered (df_filtered ys gs (load_data csv))"
    and "Max (Date ` set (df_filtered ys gs (load_data csv))) \<le> (2261, 10, 1)"
  shows "\<exists>slope intercept fc.
       LinearRegression_fit
         (map (\<lambda>(d, c). real (toordinal d)) (trend (df_filtered ys gs (load_data csv))))
         (map snd (trend (df_filtered ys gs (load_data csv)))) = Inr (slope, intercept)
     \<and> (\<forall>a b. residual_sum_of_squares (slope, intercept)
             (map (\<lambda>(d, c). real (toordinal d)) (trend (df_filtered ys gs (load_data csv))))
             (map snd (trend (df_filtered ys gs (load_data csv))))
           \<le> residual_sum_of_squares (a, b)
             (map (\<lambda>(d, c). real (toordinal d)) (trend (df_filtered ys gs (load_data csv))))
             (map snd (trend (df_filtered ys gs (load_data csv)))))
     \<and> (\<forall>a b. residual_sum_of_squares (a, b)
             (map (\<lambda>(d, c). real (toordinal d)) (trend (df_filtered ys gs (load_data csv))))
             (map snd (trend (df_filtered ys gs (load_data csv))))
           \<le> residual_sum_of_squares (slope, intercept)
             (map (\<lambda>(d, c). real (toordinal d)) (trend (df_filtered ys gs (load_data csv))))
             (map snd (trend (df_filtered ys gs (load_data csv))))
           \<longrightarrow> (a, b) = (slope, intercept))
     \<and> forecast_df (df_filtered ys gs (load_data csv)) = Inr fc
     \<and> fc = map (\<lambda>i. (month_start
                         (month_index (Max (Date ` set (df_filtered ys gs (load_data csv)))) + i),
                       slope * real (toordinal (month_start
                         (month_index (Max (Date ` set (df_filtered ys gs (load_data csv)))) + i)))
                         + intercept)) [1..<7]
     \<and> length fc = 6
     \<and> sorted_wrt (<) (map fst fc)
     \<and> Max (Date ` set (df_filtered ys gs (load_data csv))) < fst (hd fc)
     \<and> (\<forall>i<6. snd (fc ! i) = predict (slope, intercept) (real (toordinal (fst (fc ! i)))))"
proof -
  define df where "df = df_filtered ys gs (load_data csv)"
  define X where "X = map (\<lambda>(d, c). real (toordinal d)) (trend df)"
  define y where "y = map snd (trend df)"
  define k where "k = month_index (Max (Date ` set df))"
  have ok: "clean_row_ok r" if "r \<in> set df" for r
    using that unfolding df_def by (rule df_filtered_ok)
  from assms(1) have len: "2 \<le> length (trend df)"
    by (simp add: length_trend df_def)
  then have ne: "df \<noteq> []" using trend_Nil_iff [of df] by auto
  have Xne: "X \<noteq> []" and Xy: "length X = length y"
    using len by (auto simp: X_def y_def)
  obtain slope intercept where fit: "LinearRegression_fit X y = Inr (slope, intercept)"
    using fit_line [OF Xne Xy refl refl refl refl refl refl] by blast
  have strict: "sorted_wrt (<) (map (\<lambda>(d, c). toordinal d) (trend df))"
    using ok by (rule ordinals_strict)
  have l0: "0 < length (trend df)" and l1: "1 < length (trend df)"
    using len by linarith+
  have "map (\<lambda>(d, c). toordinal d) (trend df) ! 0 < map (\<lambda>(d, c). toordinal d) (trend df) ! 1"
    using len by (intro sorted_wrt_nth_less [OF strict]) simp_all
  then have "X ! 0 \<noteq> X ! 1"
    unfolding X_def nth_map [OF l0] nth_map [OF l1] by (simp add: case_prod_beta)
  moreover have "X ! 0 \<in> set X" "X ! 1 \<in> set X"
    using l0 l1 by (simp_all add: X_def)
  ultimately obtain x1 x2 where two: "x1 \<in> set X" "x2 \<in> set X" "x1 \<noteq> x2" by blast
  have min: "residual_sum_of_squares (slope, intercept) X y \<le> residual_sum_of_squares (a, b) X y"
    for a b using fit by (rule fit_minimises)
  have uniq: "(a, b) = (slope, intercept)"
    if "residual_sum_of_squares (a, b) X y \<le> residual_sum_of_squares (slope, intercept) X y"
    for a b using fit two that by (rule fit_unique)
  obtain r where r: "r \<in> set df" and last: "Date r = Max (Date ` set df)"
    using ne by (rule max_date_row)
  have "month_start (k + 6) \<le> Timestamp_max"
    unfolding k_def last [symmetric]
    using ok [OF r] assms(2) unfolding df_def [symmetric] last [symmetric]
    by (rule late_month_representable)
  define fc where "fc = map (\<lambda>i. (month_start (k + i),
      slope * real (toordinal (month_start (k + i))) + intercept)) [1..<7]"
  have fdf: "forecast_df df = Inr fc"
    using forecast_df_clean [OF ok fit [unfolded X_def y_def]] \<open>month_start (k + 6) \<le> Timestamp_max\<close>
    unfolding fc_def k_def by (simp del: less_eq_prod_simp upt_Suc)
  have fc_list: "fc = map (\<lambda>i. (month_start (k + i),
      slope * real (toordinal (month_start (k + i))) + intercept)) [1, 2, 3, 4, 5, 6]"
    unfolding fc_def upt_1_7 ..
  have dates: "map fst fc = map (\<lambda>i. month_start (k + i)) [1, 2, 3, 4, 5, 6]"
    unfolding fc_list by simp
  have l6: "length fc = 6" unfolding fc_list by simp
  have inc: "sorted_wrt (<) (map fst fc)"
    unfolding dates by (simp add: month_start_mono del: less_prod_simp)
  have "month_start k = Date r"
    using ok [OF r] unfolding k_def last [symmetric]
    by (elim clean_row_okD) (simp add: month_start_index)
  moreover have "month_start k < month_start (k + 1)"
    by (rule month_start_mono) simp
  moreover have "fst (hd fc) = month_start (k + 1)"
    unfolding fc_list by simp
  ultimately have after: "Max (Date ` set df) < fst (hd fc)"
    by (simp add: last del: less_prod_simp)
  have vals: "\<forall>i<6. snd (fc ! i) = predict (slope, intercept) (real (toordinal (fst (fc ! i))))"
    unfolding fc_list predict_def
    by (simp add: less_Suc_eq numeral_eq_Suc nth_Cons')
  show ?thesis
    using fit min uniq fdf l6 inc after vals
    unfolding X_def y_def df_def fc_def k_def by blast
qed

lemma falling_selected:
  "df_filtered [''2020''] [''Beirut'']
     (load_data
       [\<lparr>refArea = Some ''http://dbpedia.org/resource/Beirut'', refPeriod = Some ''01-2020'',
         csv_Number_of_cases = Some 20\<rparr>,
        \<lparr>refArea = Some ''http://dbpedia.org/resource/Beirut'', refPeriod = Some ''02-2020'',
         csv_Number_of_cases = Some 1\<rparr>])
     = [\<lparr>Date = (2020, 1, 1), Year = ''2020'', Month = ''01'', Governorate = ''Beirut'',
         Number_of_cases = 20\<rparr>,
        \<lparr>Date = (2020, 2, 1), Year = ''2020'', Month = ''02'', Governorate = ''Beirut'',
         Number_of_cases = 1\<rparr>]"
  by (simp add: loader_defs df_filtered_def)

lemma falling_trend:
  "trend
     [\<lparr>Date = (2020, 1, 1), Year = ''2020'', Month = ''01'', Governorate = ''Beirut'',
       Number_of_cases = 20\<rparr>,
      \<lparr>Date = (2020, 2, 1), Year = ''2020'', Month = ''02'', Governorate = ''Beirut'',
       Number_of_cases = 1\<rparr>]
     = [((2020, 1, 1), 20), ((2020, 2, 1), 1)]"
  by (simp add: trend_def groupby_sum_def groupby_def)

lemma falling_fit:
  "LinearRegression_fit [real (toordinal (2020, 1, 1)), real (toordinal (2020, 2, 1))] [20, 1]
     = Inr (- 19 / 31, 14011695 / 31)"
  unfolding toordinal_2020 by (simp add: LinearRegression_fit_def Let_def)

theorem forecast_six_months_witness:
  "2 \<le> kpi_months_covered (df_filtered [''2020''] [''Beirut'']
      (load_data
        [\<lparr>refArea = Some ''http://dbpedia.org/resource/Beirut'',
          refPeriod = Some ''01-2020'', csv_Number_of_cases = Some 20\<rparr>,
         \<lparr>refArea = Some ''http://dbpedia.org/resource/Beirut'',
          refPeriod = Some ''02-2020'', csv_Number_of_cases = Some 1\<rparr>]))
   \<and> (\<exists>fc. forecast_df (df_filtered [''2020''] [''Beirut'']
      (load_data
        [\<lparr>refArea = Some ''http://dbpedia.org/resource/Beirut'',
          refPeriod = Some ''01-2020'', csv_Number_of_cases = Some 20\<rparr>,
         \<lparr>refArea = Some ''http://dbpedia.org/resource/Beirut'',
          refPeriod = Some ''02-2020'', csv_Number_of_cases = Some 1\<rparr>])) = Inr fc
        \<and> length fc = 6 \<and> sorted_wrt (<) (map fst fc)
        \<and> hd fc = ((2020, 3, 1), - 520 / 31))"
proof -
  let ?csv = "[\<lparr>refArea = Some ''http://dbpedia.org/resource/Beirut'',
          refPeriod = Some ''01-2020'', csv_Number_of_cases = Some (20::real)\<rparr>,
         \<lparr>refArea = Some ''http://dbpedia.org/resource/Beirut'',
          refPeriod = Some ''02-2020'', csv_Number_of_cases = Some 1\<rparr>]"
  let ?df = "df_filtered [''2020''] [''Beirut''] (load_data ?csv)"
  have h1: "2 \<le> kpi_months_covered ?df"
    unfolding falling_selected by (simp add: kpi_months_covered_def)
  have mx: "Max (Date ` set ?df) = (2020, 2, 1)"
    unfolding falling_selected by simp
  have h2: "Max (Date ` set ?df) \<le> (2261, 10, 1)"
    unfolding mx by simp
  from forecast_six_months [OF h1 h2]
  obtain slope intercept fc where
    fit: "LinearRegression_fit (map (\<lambda>(d, c). real (toordinal d)) (trend ?df)) (map snd (trend ?df))
       = Inr (slope, intercept)"
    and fdf: "forecast_df ?df = Inr fc"
    and fc: "fc = map (\<lambda>i. (month_start (month_index (Max (Date ` set ?df)) + i),
               slope * real (toordinal (month_start (month_index (Max (Date ` set ?df)) + i)))
                 + intercept)) [1..<7]"
    and l: "length fc = 6" and inc: "sorted_wrt (<) (map fst fc)"
    by blast
  have "LinearRegression_fit (map (\<lambda>(d, c). real (toordinal d)) (trend ?df)) (map snd (trend ?df))
       = Inr (- 19 / 31, 14011695 / 31)"
    unfolding falling_selected falling_trend
    by (simp only: list.map prod.case snd_conv falling_fit)
  with fit have "slope = - 19 / 31" "intercept = 14011695 / 31"
    by simp_all
  moreover have "month_start (month_index (2020, 2, 1) + 1) = (2020, 3, 1)"
    by (simp add: month_start_def month_index_def)
  moreover have "real (toordinal (2020, 3, 1)) = 737485"
    by (simp only: toordinal_2020 of_nat_numeral)
  ultimately have "hd fc = ((2020, 3, 1), - 520 / 31)"
    unfolding fc mx upt_1_7 by (simp only: list.map list.sel) simp
  with h1 fdf l inc show ?thesis by blast
qed

text \<open>
  Claim C2 as stated fails at the end of the representable range: with observations in
  March and April 2262 there are two distinct dates, but the month after April 2262 is
  past the last timestamp, the date addition raises and no forecast is produced.
\<close>

theorem forecast_out_of_bounds:
  "2 \<le> kpi_months_covered (df_filtered [''2262''] [''Beirut'']
      (load_data
        [\<lparr>refArea = Some ''http://dbpedia.org/resource/Beirut'',
          refPeriod = Some ''03-2262'', csv_Number_of_cases = Some 10\<rparr>,
         \<lparr>refArea = Some ''http://dbpedia.org/resource/Beirut'',
          refPeriod = Some ''04-2262'', csv_Number_of_cases = Some 20\<rparr>]))
   \<and> forecast_df (df_filtered [''2262''] [''Beirut'']
      (load_data
        [\<lparr>refArea = Some ''http://dbpedia.org/resource/Beirut'',
          refPeriod = Some ''03-2262'', csv_Number_of_cases = Some 10\<rparr>,
         \<lparr>refArea = Some ''http://dbpedia.org/resource/Beirut'',
          refPeriod = Some ''04-2262'', csv_Number_of_cases = Some 20\<rparr>]))
       = Inl OutOfBoundsDatetime"
proof -
  let ?csv = "[\<lparr>refArea = Some ''http://dbpedia.org/resource/Beirut'',
          refPeriod = Some ''03-2262'', csv_Number_of_cases = Some (10::real)\<rparr>,
         \<lparr>refArea = Some ''http://dbpedia.org/resource/Beirut'',
          refPeriod = Some ''04-2262'', csv_Number_of_cases = Some 20\<rparr>]"
  have df: "df_filtered [''2262''] [''Beirut''] (load_data ?csv) =
     [\<lparr>Date = (2262, 3, 1), Year = ''2262'', Month = ''03'', Governorate = ''Beirut'',
       Number_of_cases = 10\<rparr>,
      \<lparr>Date = (2262, 4, 1), Year = ''2262'', Month = ''04'', Governorate = ''Beirut'',
       Number_of_cases = 20\<rparr>]"
    by (simp add: loader_defs df_filtered_def)
  have t: "trend [\<lparr>Date = (2262, 3, 1), Year = ''2262'', Month = ''03'', Governorate = ''Beirut'',
       Number_of_cases = 10\<rparr>,
      \<lparr>Date = (2262, 4, 1), Year = ''2262'', Month = ''04'', Governorate = ''Beirut'',
       Number_of_cases = 20\<rparr>] = [((2262, 3, 1), 10), ((2262, 4, 1), 20)]"
    by (simp add: trend_def groupby_sum_def groupby_def)
  have f: "future_dates (2262, 4, Suc 0) = Inl OutOfBoundsDatetime"
    unfolding future_dates_def upt_1_7
    by (simp add: add_months_def days_in_month_def Timestamp_max_def)
  show ?thesis
    unfolding df forecast_df_unfold t kpi_months_covered_def
    by (simp add: LinearRegression_fit_def Let_def series_max_def f)
qed

subsection \<open>The two-record scenario\<close>

lemma beirut_load:
  "load_data
     [\<lparr>refArea = Some (pre @ ''/resource/Beirut''), refPeriod = Some ''01-2020'',
       csv_Number_of_cases = Some 10\<rparr>,
      \<lparr>refArea = Some (pre @ ''/resource/Beirut''), refPeriod = Some ''02-2020'',
       csv_Number_of_cases = Some 20\<rparr>]
     = [\<lparr>Date = (2020, 1, 1), Year = ''2020'', Month = ''01'', Governorate = ''Beirut'',
         Number_of_cases = 10\<rparr>,
        \<lparr>Date = (2020, 2, 1), Year = ''2020'', Month = ''02'', Governorate = ''Beirut'',
         Number_of_cases = 20\<rparr>]"
proof -
  let ?r1 = "\<lparr>refArea = Some (pre @ ''/resource/Beirut''), refPeriod = Some ''01-2020'',
       csv_Number_of_cases = Some (10::real)\<rparr>"
  let ?r2 = "\<lparr>refArea = Some (pre @ ''/resource/Beirut''), refPeriod = Some ''02-2020'',
       csv_Number_of_cases = Some (20::real)\<rparr>"
  have g: "re_search match_resource (pre @ ''/resource/Beirut'') = Some ''Beirut''"
    using re_search_resource [of "''Beirut''" pre] by simp
  have "load_data [?r1] =
      [\<lparr>Date = (2020, 1, 1), Year = ''2020'', Month = ''01'', Governorate = ''Beirut'',
         Number_of_cases = 10\<rparr>]"
    "load_data [?r2] =
      [\<lparr>Date = (2020, 2, 1), Year = ''2020'', Month = ''02'', Governorate = ''Beirut'',
         Number_of_cases = 20\<rparr>]"
    by (simp_all add: load_data_single row_cells_def str_extract_def g str_replace_underscore_def
        str_add_def match_year_def match_month_def to_datetime_coerce_def is_digit_def
        nat_of_digits_def digit_val_def Timestamp_min_def Timestamp_max_def)
  then show ?thesis
    using load_data_Cons [of ?r1 "[?r2]"] by simp
qed

lemma beirut_trend:
  "trend
     [\<lparr>Date = (2020, 1, 1), Year = ''2020'', Month = ''01'', Governorate = ''Beirut'',
       Number_of_cases = 10\<rparr>,
      \<lparr>Date = (2020, 2, 1), Year = ''2020'', Month = ''02'', Governorate = ''Beirut'',
       Number_of_cases = 20\<rparr>]
     = [((2020, 1, 1), 10), ((2020, 2, 1), 20)]"
  by (simp add: trend_def groupby_sum_def groupby_def)

lemma beirut_fit:
  "LinearRegression_fit [real (toordinal (2020, 1, 1)), real (toordinal (2020, 2, 1))] [10, 20]
     = Inr (10 / 31, - 7373940 / 31)"
  unfolding toordinal_2020 by (simp add: LinearRegression_fit_def Let_def)

lemma beirut_predict:
  "predict (10 / 31, - 7373940 / 31) (real (toordinal (2020, 3, 1))) = 910 / 31"
  "predict (10 / 31, - 7373940 / 31) (real (toordinal (2020, 4, 1))) = 1220 / 31"
  "predict (10 / 31, - 7373940 / 31) (real (toordinal (2020, 5, 1))) = 1520 / 31"
  "predict (10 / 31, - 7373940 / 31) (real (toordinal (2020, 6, 1))) = 1830 / 31"
  "predict (10 / 31, - 7373940 / 31) (real (toordinal (2020, 7, 1))) = 2130 / 31"
  "predict (10 / 31, - 7373940 / 31) (real (toordinal (2020, 8, 1))) = 2440 / 31"
  unfolding toordinal_2020 by (simp_all add: predict_def)

lemma beirut_forecast:
  "forecast_df
     [\<lparr>Date = (2020, 1, 1), Year = ''2020'', Month = ''01'', Governorate = ''Beirut'',
       Number_of_cases = 10\<rparr>,
      \<lparr>Date = (2020, 2, 1), Year = ''2020'', Month = ''02'', Governorate = ''Beirut'',
       Number_of_cases = 20\<rparr>]
     = Inr [((2020, 3, 1), 910 / 31), ((2020, 4, 1), 1220 / 31), ((2020, 5, 1), 1520 / 31),
            ((2020, 6, 1), 1830 / 31), ((2020, 7, 1), 2130 / 31), ((2020, 8, 1), 2440 / 31)]"
proof -
  have m: "series_max [(2020, 1, 1), (2020, 2, 1)] = Some (2020, 2, 1)"
    by (simp add: series_max_def)
  show ?thesis
    unfolding forecast_df_unfold beirut_trend
    by (simp only: list.map prod.case snd_conv fst_conv beirut_fit sum.case m option.case
        future_dates_2020_02 beirut_predict)
qed

text \<open>
  Claim C4, amended. For the two records with \<^verbatim>\<open>refArea\<close> ending in \<^verbatim>\<open>/resource/Beirut\<close>,
  periods 01-2020 and 02-2020 and 10 and 20 cases, the cleaned table has exactly 2 rows
  with Governorate Beirut and dates 2020-01-01 and 2020-02-01, the by-date totals are 10
  and 20, and the line fitted through the two points, which are 31 days apart on the
  ordinal axis, has slope 10/31 per day; since March 1st 2020 is 29 days after February
  1st, it predicts 910/31 (about 29.35) for 2020-03, not 30.
\<close>

theorem beirut_scenario:
  "load_data
     [\<lparr>refArea = Some (pre @ ''/resource/Beirut''), refPeriod = Some ''01-2020'',
       csv_Number_of_cases = Some 10\<rparr>,
      \<lparr>refArea = Some (pre @ ''/resource/Beirut''), refPeriod = Some ''02-2020'',
       csv_Number_of_cases = Some 20\<rparr>]
     = [\<lparr>Date = (2020, 1, 1), Year = ''2020'', Month = ''01'', Governorate = ''Beirut'',
         Number_of_cases = 10\<rparr>,
        \<lparr>Date = (2020, 2, 1), Year = ''2020'', Month = ''02'', Governorate = ''Beirut'',
         Number_of_cases = 20\<rparr>]
   \<and> trend
       [\<lparr>Date = (2020, 1, 1), Year = ''2020'', Month = ''01'', Governorate = ''Beirut'',
         Number_of_cases = 10\<rparr>,
        \<lparr>Date = (2020, 2, 1), Year = ''2020'', Month = ''02'', Governorate = ''Beirut'',
         Number_of_cases = 20\<rparr>]
     = [((2020, 1, 1), 10), ((2020, 2, 1), 20)]
   \<and> LinearRegression_fit [real (toordinal (2020, 1, 1)), real (toordinal (2020, 2, 1))] [10, 20]
     = Inr (10 / 31, - 7373940 / 31)
   \<and> predict (10 / 31, - 7373940 / 31) (real (toordinal (2020, 3, 1))) = 910 / 31
   \<and> forecast_df
       [\<lparr>Date = (2020, 1, 1), Year = ''2020'', Month = ''01'', Governorate = ''Beirut'',
         Number_of_cases = 10\<rparr>,
        \<lparr>Date = (2020, 2, 1), Year = ''2020'', Month = ''02'', Governorate = ''Beirut'',
         Number_of_cases = 20\<rparr>]
     = Inr [((2020, 3, 1), 910 / 31), ((2020, 4, 1), 1220 / 31), ((2020, 5, 1), 1520 / 31),
            ((2020, 6, 1), 1830 / 31), ((2020, 7, 1), 2130 / 31), ((2020, 8, 1), 2440 / 31)]"
  by (intro conjI beirut_load beirut_trend beirut_fit beirut_predict(1) beirut_forecast)

text \<open>Claim C4 as stated fails: the forecast for 2020-03 is 910/31, which is not 30.\<close>

theorem beirut_march_not_30:
  "forecast_df
     (load_data
       [\<lparr>refArea = Some ''http://dbpedia.org/resource/Beirut'', refPeriod = Some ''01-2020'',
         csv_Number_of_cases = Some 10\<rparr>,
        \<lparr>refArea = Some ''http://dbpedia.org/resource/Beirut'', refPeriod = Some ''02-2020'',
         csv_Number_of_cases = Some 20\<rparr>])
     = Inr [((2020, 3, 1), 910 / 31), ((2020, 4, 1), 1220 / 31), ((2020, 5, 1), 1520 / 31),
            ((2020, 6, 1), 1830 / 31), ((2020, 7, 1), 2130 / 31), ((2020, 8, 1), 2440 / 31)]
   \<and> (910 / 31 :: real) \<noteq> 30"
  using beirut_load [of "''http://dbpedia.org''"] beirut_forecast by simp

subsection \<open>Regression series and month starts\<close>

text \<open>
  Claim C8. For every filtered table, the regression series carries exactly the (Date,
  total cases) pairs of the by-date total view, in the same order; its third column is
  the ordinal of each date, and these ordinals are strictly increasing along the series.
\<close>

theorem regression_series_is_trend:
  "map (\<lambda>(d, c, ordinal). (d, c)) (monthly_cases (df_filtered ys gs (load_data csv)))
     = trend (df_filtered ys gs (load_data csv))
   \<and> map (\<lambda>(d, c, ordinal). ordinal) (monthly_cases (df_filtered ys gs (load_data csv)))
     = map (\<lambda>(d, c). toordinal d) (trend (df_filtered ys gs (load_data csv)))
   \<and> sorted_wrt (<)
       (map (\<lambda>(d, c, ordinal). ordinal) (monthly_cases (df_filtered ys gs (load_data csv))))"
proof -
  define df where "df = df_filtered ys gs (load_data csv)"
  have a: "map (\<lambda>(d, c, ordinal). (d, c)) (monthly_cases df) = trend df"
    by (simp add: monthly_cases_trend case_prod_beta comp_def)
  have b: "map (\<lambda>(d, c, ordinal). ordinal) (monthly_cases df)
      = map (\<lambda>(d, c). toordinal d) (trend df)"
    by (simp add: monthly_cases_trend case_prod_beta comp_def)
  have "sorted_wrt (<) (map (\<lambda>(d, c). toordinal d) (trend df))"
    unfolding df_def by (rule ordinals_strict) (rule df_filtered_ok)
  with a b show ?thesis unfolding df_def by simp
qed



subsection \<open>Selections that match no row\<close>

lemma groupby_sum_Nil: "groupby_sum [] = []"
  by (simp add: groupby_sum_def groupby_def)

lemma groupby_mean_Nil: "groupby_mean [] = []"
  by (simp add: groupby_mean_def groupby_def)

lemma monthly_avg_Nil: "monthly_avg [] = Inr (map (\<lambda>name. (name, None)) month_order)"
  by (simp add: monthly_avg_def Month_Name_def reindex_def groupby_mean_Nil)

text \<open>
  Claim C5, amended. An empty year selection or an empty region selection matches no row,
  and for every selection that matches no row the filter returns the empty table without
  error, the three key figures are 0, the by-date and the by-region series are empty, the
  by-month series has its 12 entries, all missing, the regression series is empty, and
  the fit of the forecast stage raises a \<^verbatim>\<open>ValueError\<close>.
\<close>

theorem empty_selection:
  "df_filtered [] gs df = []
   \<and> df_filtered ys [] df = []
   \<and> (df_filtered ys gs df = [] \<longrightarrow>
        kpi_total_cases (df_filtered ys gs df) = 0
        \<and> kpi_months_covered (df_filtered ys gs df) = 0
        \<and> kpi_governorates (df_filtered ys gs df) = 0
        \<and> trend (df_filtered ys gs df) = []
        \<and> gov_data (df_filtered ys gs df) = []
        \<and> monthly_avg (df_filtered ys gs df) = Inr (map (\<lambda>name. (name, None)) month_order)
        \<and> monthly_cases (df_filtered ys gs df) = []
        \<and> forecast_df (df_filtered ys gs df) = Inl ValueError)"
proof (intro conjI impI)
  show "df_filtered [] gs df = []" "df_filtered ys [] df = []"
    by (simp_all add: df_filtered_def)
next
  assume e: "df_filtered ys gs df = []"
  show "kpi_total_cases (df_filtered ys gs df) = 0"
    "kpi_months_covered (df_filtered ys gs df) = 0"
    "kpi_governorates (df_filtered ys gs df) = 0"
    unfolding e by (simp_all add: kpi_total_cases_def py_int_def kpi_months_covered_def
        kpi_governorates_def)
  show "trend (df_filtered ys gs df) = []" "gov_data (df_filtered ys gs df) = []"
    "monthly_cases (df_filtered ys gs df) = []"
    unfolding e by (simp_all add: trend_def gov_data_def monthly_cases_def groupby_sum_Nil)
  show "monthly_avg (df_filtered ys gs df) = Inr (map (\<lambda>name. (name, None)) month_order)"
    unfolding e by (rule monthly_avg_Nil)
  show "forecast_df (df_filtered ys gs df) = Inl ValueError"
    unfolding e by (rule forecast_df_empty)
qed

lemma beirut_other_year:
  "df_filtered [''1999''] [''Beirut'']
     (load_data
       [\<lparr>refArea = Some ''http://dbpedia.org/resource/Beirut'', refPeriod = Some ''01-2020'',
         csv_Number_of_cases = Some 10\<rparr>,
        \<lparr>refArea = Some ''http://dbpedia.org/resource/Beirut'', refPeriod = Some ''02-2020'',
         csv_Number_of_cases = Some 20\<rparr>]) = []"
  using beirut_load [of "''http://dbpedia.org''"] by (simp add: df_filtered_def)

theorem empty_selection_witness:
  "df_filtered [''1999''] [''Beirut'']
     (load_data
       [\<lparr>refArea = Some ''http://dbpedia.org/resource/Beirut'', refPeriod = Some ''01-2020'',
         csv_Number_of_cases = Some 10\<rparr>,
        \<lparr>refArea = Some ''http://dbpedia.org/resource/Beirut'', refPeriod = Some ''02-2020'',
         csv_Number_of_cases = Some 20\<rparr>]) = []
   \<and> kpi_total_cases (df_filtered [''1999''] [''Beirut'']
     (load_data
       [\<lparr>refArea = Some ''http://dbpedia.org/resource/Beirut'', refPeriod = Some ''01-2020'',
         csv_Number_of_cases = Some 10\<rparr>,
        \<lparr>refArea = Some ''http://dbpedia.org/resource/Beirut'', refPeriod = Some ''02-2020'',
         csv_Number_of_cases = Some 20\<rparr>])) = 0
   \<and> trend (df_filtered [''1999''] [''Beirut'']
     (load_data
       [\<lparr>refArea = Some ''http://dbpedia.org/resource/Beirut'', refPeriod = Some ''01-2020'',
         csv_Number_of_cases = Some 10\<rparr>,
        \<lparr>refArea = Some ''http://dbpedia.org/resource/Beirut'', refPeriod = Some ''02-2020'',
         csv_Number_of_cases = Some 20\<rparr>])) = []
   \<and> forecast_df (df_filtered [''1999''] [''Beirut'']
     (load_data
       [\<lparr>refArea = Some ''http://dbpedia.org/resource/Beirut'', refPeriod = Some ''01-2020'',
         csv_Number_of_cases = Some 10\<rparr>,
        \<lparr>refArea = Some ''http://dbpedia.org/resource/Beirut'', refPeriod = Some ''02-2020'',
         csv_Number_of_cases = Some 20\<rparr>])) = Inl ValueError"
  using empty_selection [of "[''Beirut'']" _ "[''1999'']"] beirut_other_year by blast

text \<open>
  Claim C5 as stated fails: for a year with no rows the forecast stage raises (the fit
  rejects an input of no samples), and the by-month series is not empty but has 12
  missing entries.
\<close>

theorem empty_filter_forecast_raises:
  "df_filtered [''1999''] [''Beirut'']
     (load_data
       [\<lparr>refArea = Some ''http://dbpedia.org/resource/Beirut'', refPeriod = Some ''01-2020'',
         csv_Number_of_cases = Some 10\<rparr>,
        \<lparr>refArea = Some ''http://dbpedia.org/resource/Beirut'', refPeriod = Some ''02-2020'',
         csv_Number_of_cases = Some 20\<rparr>]) = []
   \<and> forecast_df (df_filtered [''1999''] [''Beirut'']
     (load_data
       [\<lparr>refArea = Some ''http://dbpedia.org/resource/Beirut'', refPeriod = Some ''01-2020'',
         csv_Number_of_cases = Some 10\<rparr>,
        \<lparr>refArea = Some ''http://dbpedia.org/resource/Beirut'', refPeriod = Some ''02-2020'',
         csv_Number_of_cases = Some 20\<rparr>])) = Inl ValueError
   \<and> monthly_avg (df_filtered [''1999''] [''Beirut'']
     (load_data
       [\<lparr>refArea = Some ''http://dbpedia.org/resource/Beirut'', refPeriod = Some ''01-2020'',
         csv_Number_of_cases = Some 10\<rparr>,
        \<lparr>refArea = Some ''http://dbpedia.org/resource/Beirut'', refPeriod = Some ''02-2020'',
         csv_Number_of_cases = Some 20\<rparr>]))
     = Inr [(''January'', None), (''February'', None), (''March'', None), (''April'', None),
            (''May'', None), (''June'', None), (''July'', None), (''August'', None),
            (''September'', None), (''October'', None), (''November'', None),
            (''December'', None)]"
  unfolding beirut_other_year
  by (simp add: forecast_df_empty monthly_avg_Nil month_order_def)

subsection \<open>Fewer than two dates\<close>

lemma trend_total: "sum_list (map snd (trend df)) = sum_list (map Number_of_cases df)"
  by (simp add: trend_def groupby_sum_total comp_def)

lemma trend_single:
  assumes "kpi_months_covered df = 1"
  obtains d where "trend df = [(d, sum_list (map Number_of_cases df))]"
proof -
  from assms have "length (trend df) = 1" by (simp add: length_trend)
  then obtain d s where t: "trend df = [(d, s)]"
    by (cases "trend df"; cases "tl (trend df)") auto
  with trend_total [of df] have "s = sum_list (map Number_of_cases df)" by simp
  with t that show ?thesis by simp
qed

text \<open>
  Claim C6, amended. For every filtered table with no date at all, the unguarded fit
  raises a \<^verbatim>\<open>ValueError\<close>, which ends the forecast stage. For every filtered table with
  exactly one distinct date the fit does not raise: it returns the horizontal line
  (slope 0) through that date's total, and the forecast is six times that total, unless
  the sixth month ahead is past the last representable timestamp, in which case the date
  addition raises.
\<close>

theorem forecast_with_short_history:
  "(kpi_months_covered (df_filtered ys gs (load_data csv)) = 0 \<longrightarrow>
       forecast_df (df_filtered ys gs (load_data csv)) = Inl ValueError)
   \<and> (kpi_months_covered (df_filtered ys gs (load_data csv)) = 1 \<longrightarrow>
       LinearRegression_fit
         (map (\<lambda>(d, c). real (toordinal d)) (trend (df_filtered ys gs (load_data csv))))
         (map snd (trend (df_filtered ys gs (load_data csv))))
         = Inr (0, sum_list (map Number_of_cases (df_filtered ys gs (load_data csv))))
       \<and> forecast_df (df_filtered ys gs (load_data csv)) =
          (if month_start
                (month_index (Max (Date ` set (df_filtered ys gs (load_data csv)))) + 6)
              \<le> Timestamp_max
           then Inr (map (\<lambda>i. (month_start
                    (month_index (Max (Date ` set (df_filtered ys gs (load_data csv)))) + i),
                  sum_list (map Number_of_cases (df_filtered ys gs (load_data csv))))) [1..<7])
           else Inl OutOfBoundsDatetime))"
proof (intro conjI impI)
  define df where "df = df_filtered ys gs (load_data csv)"
  have ok: "clean_row_ok r" if "r \<in> set df" for r
    using that unfolding df_def by (rule df_filtered_ok)
  {
    assume "kpi_months_covered df = 0"
    then have "length (trend df) = 0" by (simp add: length_trend)
    then have "df = []" by (simp add: trend_Nil_iff)
    then show "forecast_df df = Inl ValueError" by (simp add: forecast_df_empty)
  }
  {
    assume one: "kpi_months_covered df = 1"
    then obtain d where t: "trend df = [(d, sum_list (map Number_of_cases df))]"
      by (rule trend_single)
    show fit: "LinearRegression_fit (map (\<lambda>(d, c). real (toordinal d)) (trend df))
        (map snd (trend df)) = Inr (0, sum_list (map Number_of_cases df))"
      unfolding t by (simp add: fit_single)
    show "forecast_df df =
          (if month_start (month_index (Max (Date ` set df)) + 6) \<le> Timestamp_max
           then Inr (map (\<lambda>i. (month_start (month_index (Max (Date ` set df)) + i),
                  sum_list (map Number_of_cases df))) [1..<7])
           else Inl OutOfBoundsDatetime)"
      using forecast_df_clean [OF ok fit] by (simp del: less_eq_prod_simp upt_Suc)
  }
qed

lemma beirut_january:
  "df_filtered [''2020''] [''Beirut'']
     (load_data
       [\<lparr>refArea = Some ''http://dbpedia.org/resource/Beirut'', refPeriod = Some ''01-2020'',
         csv_Number_of_cases = Some 10\<rparr>])
     = [\<lparr>Date = (2020, 1, 1), Year = ''2020'', Month = ''01'', Governorate = ''Beirut'',
         Number_of_cases = 10\<rparr>]"
  by (simp add: loader_defs df_filtered_def)

theorem forecast_with_short_history_witness:
  "kpi_months_covered (df_filtered [''2020''] [''Beirut'']
     (load_data
       [\<lparr>refArea = Some ''http://dbpedia.org/resource/Beirut'', refPeriod = Some ''01-2020'',
         csv_Number_of_cases = Some 10\<rparr>])) = 1
   \<and> LinearRegression_fit
         (map (\<lambda>(d, c). real (toordinal d)) (trend (df_filtered [''2020''] [''Beirut'']
           (load_data
             [\<lparr>refArea = Some ''http://dbpedia.org/resource/Beirut'', refPeriod = Some ''01-2020'',
               csv_Number_of_cases = Some 10\<rparr>]))))
         (map snd (trend (df_filtered [''2020''] [''Beirut'']
           (load_data
             [\<lparr>refArea = Some ''http://dbpedia.org/resource/Beirut'', refPeriod = Some ''01-2020'',
               csv_Number_of_cases = Some 10\<rparr>]))))
         = Inr (0, 10)"
proof -
  let ?csv = "[\<lparr>refArea = Some ''http://dbpedia.org/resource/Beirut'', refPeriod = Some ''01-2020'',
         csv_Number_of_cases = Some (10::real)\<rparr>]"
  have one: "kpi_months_covered (df_filtered [''2020''] [''Beirut''] (load_data ?csv)) = 1"
    unfolding beirut_january by (simp add: kpi_months_covered_def)
  have total: "sum_list (map Number_of_cases (df_filtered [''2020''] [''Beirut''] (load_data ?csv)))
      = 10"
    unfolding beirut_january by simp
  from forecast_with_short_history [of "[''2020'']" "[''Beirut'']" ?csv] one
  have "LinearRegression_fit
         (map (\<lambda>(d, c). real (toordinal d)) (trend (df_filtered [''2020''] [''Beirut''] (load_data ?csv))))
         (map snd (trend (df_filtered [''2020''] [''Beirut''] (load_data ?csv))))
         = Inr (0, sum_list (map Number_of_cases (df_filtered [''2020''] [''Beirut''] (load_data ?csv))))"
    by blast
  with one show ?thesis unfolding total by (rule conjI)
qed

text \<open>
  Claim C6 as stated fails: with a single observed month the by-date series has fewer than
  2 distinct dates, yet the fit returns a line and six predictions are produced.
\<close>

theorem single_month_forecast:
  "kpi_months_covered (df_filtered [''2020''] [''Beirut'']
     (load_data
       [\<lparr>refArea = Some ''http://dbpedia.org/resource/Beirut'', refPeriod = Some ''01-2020'',
         csv_Number_of_cases = Some 10\<rparr>])) = 1
   \<and> forecast_df (df_filtered [''2020''] [''Beirut'']
     (load_data
       [\<lparr>refArea = Some ''http://dbpedia.org/resource/Beirut'', refPeriod = Some ''01-2020'',
         csv_Number_of_cases = Some 10\<rparr>]))
     = Inr [((2020, 2, 1), 10), ((2020, 3, 1), 10), ((2020, 4, 1), 10),
            ((2020, 5, 1), 10), ((2020, 6, 1), 10), ((2020, 7, 1), 10)]"
proof -
  have t: "trend [\<lparr>Date = (2020, 1, 1), Year = ''2020'', Month = ''01'', Governorate = ''Beirut'',
         Number_of_cases = 10\<rparr>] = [((2020, 1, 1), 10)]"
    by (simp add: trend_def groupby_sum_def groupby_def)
  have m: "series_max [(2020, 1, 1)] = Some (2020, 1, 1)"
    by (simp add: series_max_def)
  have f: "future_dates (2020, 1, 1) =
     Inr [(2020, 2, 1), (2020, 3, 1), (2020, 4, 1), (2020, 5, 1), (2020, 6, 1), (2020, 7, 1)]"
    unfolding future_dates_def upt_1_7
    by (simp add: add_months_def days_in_month_def Timestamp_max_def is_leap_def)
  have p: "predict (0, 10) x = 10" for x
    by (simp add: predict_def)
  have "forecast_df [\<lparr>Date = (2020, 1, 1), Year = ''2020'', Month = ''01'', Governorate = ''Beirut'',
         Number_of_cases = 10\<rparr>]
     = Inr [((2020, 2, 1), 10), ((2020, 3, 1), 10), ((2020, 4, 1), 10),
            ((2020, 5, 1), 10), ((2020, 6, 1), 10), ((2020, 7, 1), 10)]"
    unfolding forecast_df_unfold t
    by (simp only: list.map prod.case snd_conv fst_conv fit_single sum.case m option.case f p)
  then show ?thesis
    unfolding beirut_january by (simp add: kpi_months_covered_def)
qed

subsection \<open>Seasonality: twelve months in calendar order\<close>

lemma strptime_m_value:
  assumes "strptime_m s = Inr m"
  shows "m = nat_of_digits s \<and> 1 \<le> m \<and> m \<le> 12"
proof (cases s)
  case Nil
  with assms show ?thesis by (simp add: strptime_m_def)
next
  case (Cons c1 s1)
  show ?thesis
  proof (cases s1)
    case Nil
    with Cons assms have c: "is_digit c1" "c1 \<noteq> CHR ''0''" and m: "m = digit_val c1"
      by (auto simp: strptime_m_def split: if_splits)
    from c have "1 \<le> digit_val c1 \<and> digit_val c1 \<le> 12"
      by (auto simp: is_digit_def digit_val_def)
    with m Cons Nil show ?thesis by (simp add: nat_of_digits_def)
  next
    case c2: (Cons c2 s2)
    show ?thesis
    proof (cases s2)
      case Nil
      with Cons c2 assms show ?thesis
        by (auto simp: strptime_m_def split: if_splits)
    next
      case (Cons c3 s3)
      with \<open>s = c1 # s1\<close> c2 assms show ?thesis
        by (simp add: strptime_m_def)
    qed
  qed
qed

lemma month_order_props: "length month_order = 12" "distinct month_order"
  by (simp_all add: month_order_def)

lemma strftime_B_nth:
  "strftime_B m = month_order ! (m - 1)"
  by (simp add: strftime_B_def month_order_def)

lemma month_name_iff:
  assumes "1 \<le> m" "m \<le> 12" "i < 12"
  shows "strftime_B m = month_order ! i \<longleftrightarrow> m = i + 1"
proof -
  have "month_order ! (m - 1) = month_order ! i \<longleftrightarrow> m - 1 = i"
    using assms by (intro nth_eq_iff_index_eq) (simp_all add: month_order_props)
  with assms show ?thesis by (auto simp: strftime_B_nth)
qed

lemma Month_Name_clean:
  assumes "\<And>r. r \<in> set df \<Longrightarrow> clean_row_ok r"
  shows "Month_Name df = Inr (map (\<lambda>r. strftime_B (nat_of_digits (Month r))) df)"
proof -
  have "(case strptime_m (Month r) of Inl e \<Rightarrow> Inl e | Inr m \<Rightarrow> Inr (strftime_B m))
      = Inr (strftime_B (nat_of_digits (Month r)))" if "r \<in> set df" for r
  proof -
    from assms [OF that] obtain m where m: "strptime_m (Month r) = Inr m"
      by (rule clean_row_okD)
    with strptime_m_value [OF m] show ?thesis by simp
  qed
  then have "map (\<lambda>r. case strptime_m (Month r) of Inl e \<Rightarrow> Inl e | Inr m \<Rightarrow> Inr (strftime_B m)) df
      = map Inr (map (\<lambda>r. strftime_B (nat_of_digits (Month r))) df)"
    by simp
  then show ?thesis
    unfolding Month_Name_def by (simp only: collect_Inr_iff)
qed

lemma month_number_clean:
  assumes "clean_row_ok r"
  shows "1 \<le> nat_of_digits (Month r) \<and> nat_of_digits (Month r) \<le> 12"
proof -
  from assms obtain m where "strptime_m (Month r) = Inr m" by (rule clean_row_okD)
  from strptime_m_value [OF this] show ?thesis by simp
qed

lemma reindex_nth:
  "reindex labels series = map (\<lambda>i. (labels ! i, map_of series (labels ! i))) [0..<length labels]"
  unfolding reindex_def by (rule nth_equalityI) simp_all

lemma monthly_avg_clean:
  assumes ok: "\<And>r. r \<in> set df \<Longrightarrow> clean_row_ok r"
  shows "monthly_avg df = Inr (map (\<lambda>i. (month_order ! i,
            if \<exists>r \<in> set df. nat_of_digits (Month r) = i + 1
            then Some (sum_list (map Number_of_cases (filter (\<lambda>r. nat_of_digits (Month r) = i + 1) df))
                       / real (length (filter (\<lambda>r. nat_of_digits (Month r) = i + 1) df)))
            else None)) [0..<12])"
proof -
  define name where "name = (\<lambda>r :: clean_record. strftime_B (nat_of_digits (Month r)))"
  define kvs where "kvs = map (\<lambda>r. (name r, Number_of_cases r)) df"
  have names: "Month_Name df = Inr (map name df)"
    unfolding name_def using ok by (rule Month_Name_clean)
  have z: "zip (map name df) (map Number_of_cases df) = kvs"
    unfolding kvs_def by (rule zip_map_same)
  have avg: "monthly_avg df = Inr (reindex month_order (groupby_mean kvs))"
    by (simp add: monthly_avg_def names z)
  have same: "name r = month_order ! i \<longleftrightarrow> nat_of_digits (Month r) = i + 1"
    if "r \<in> set df" "i < 12" for r i
    unfolding name_def using month_number_clean [OF ok [OF that(1)]] that(2)
    by (intro month_name_iff) simp_all
  have flt: "filter (\<lambda>r. name r = month_order ! i) df
      = filter (\<lambda>r. nat_of_digits (Month r) = i + 1) df" if "i < 12" for i
    using same that by (intro filter_cong) simp_all
  have vals: "map snd (filter (\<lambda>kv. fst kv = k) kvs) = map Number_of_cases (filter (\<lambda>r. name r = k) df)"
    for k unfolding kvs_def by (rule column_filter)
  have len: "length (filter (\<lambda>kv. fst kv = k) kvs) = length (filter (\<lambda>r. name r = k) df)" for k
    using arg_cong [OF vals [of k], of length] by simp
  have keys: "month_order ! i \<in> fst ` set kvs \<longleftrightarrow> (\<exists>r \<in> set df. nat_of_digits (Month r) = i + 1)"
    if "i < 12" for i
  proof -
    have "month_order ! i \<in> fst ` set kvs \<longleftrightarrow> (\<exists>r \<in> set df. name r = month_order ! i)"
      unfolding kvs_def by force
    also have "\<dots> \<longleftrightarrow> (\<exists>r \<in> set df. nat_of_digits (Month r) = i + 1)"
      using same [OF _ that] by blast
    finally show ?thesis .
  qed
  have entry: "map_of (groupby_mean kvs) (month_order ! i) =
       (if \<exists>r \<in> set df. nat_of_digits (Month r) = i + 1
        then Some (sum_list (map Number_of_cases (filter (\<lambda>r. nat_of_digits (Month r) = i + 1) df))
                   / real (length (filter (\<lambda>r. nat_of_digits (Month r) = i + 1) df)))
        else None)" if "i < 12" for i
    unfolding map_of_groupby_mean keys [OF that] vals len flt [OF that] ..
  show ?thesis
    unfolding avg reindex_nth month_order_props(1)
    by (simp add: entry)
qed

text \<open>
  Claim C7. For every filtered table, the by-calendar-month view after reindexing has
  exactly 12 entries, labelled January to December in that order; the entry of a month
  that occurs in the table is the arithmetic mean of \<^verbatim>\<open>Number of cases\<close> over the rows of
  that month, and the entry of a month that does not occur is missing, not zero.
\<close>

theorem monthly_avg_twelve_months:
  "\<exists>avg. monthly_avg (df_filtered ys gs (load_data csv)) = Inr avg
     \<and> length avg = 12
     \<and> map fst avg =
         [''January'', ''February'', ''March'', ''April'', ''May'', ''June'',
          ''July'', ''August'', ''September'', ''October'', ''November'', ''December'']
     \<and> (\<forall>i<12. snd (avg ! i) =
          (if \<exists>r \<in> set (df_filtered ys gs (load_data csv)). nat_of_digits (Month r) = i + 1
           then Some (sum_list (map Number_of_cases
                        (filter (\<lambda>r. nat_of_digits (Month r) = i + 1)
                           (df_filtered ys gs (load_data csv))))
                      / real (length (filter (\<lambda>r. nat_of_digits (Month r) = i + 1)
                           (df_filtered ys gs (load_data csv)))))
           else None))"
proof -
  define df where "df = df_filtered ys gs (load_data csv)"
  define avg where "avg = map (\<lambda>i. (month_order ! i,
            if \<exists>r \<in> set df. nat_of_digits (Month r) = i + 1
            then Some (sum_list (map Number_of_cases (filter (\<lambda>r. nat_of_digits (Month r) = i + 1) df))
                       / real (length (filter (\<lambda>r. nat_of_digits (Month r) = i + 1) df)))
            else None)) [0..<12]"
  have ok: "clean_row_ok r" if "r \<in> set df" for r
    using that unfolding df_def by (rule df_filtered_ok)
  have a: "monthly_avg df = Inr avg"
    unfolding avg_def using ok by (rule monthly_avg_clean)
  have l: "length avg = 12" by (simp add: avg_def)
  have "map fst avg = map (\<lambda>i. month_order ! i) [0..<length month_order]"
    by (simp add: avg_def comp_def month_order_props)
  also have "\<dots> = month_order" by (rule map_nth)
  finally have k: "map fst avg =
         [''January'', ''February'', ''March'', ''April'', ''May'', ''June'',
          ''July'', ''August'', ''September'', ''October'', ''November'', ''December'']"
    by (simp add: month_order_def)
  have v: "\<forall>i<12. snd (avg ! i) =
          (if \<exists>r \<in> set df. nat_of_digits (Month r) = i + 1
           then Some (sum_list (map Number_of_cases (filter (\<lambda>r. nat_of_digits (Month r) = i + 1) df))
                      / real (length (filter (\<lambda>r. nat_of_digits (Month r) = i + 1) df)))
           else None)"
    by (simp add: avg_def)
  have "\<exists>avg. monthly_avg df = Inr avg
     \<and> length avg = 12
     \<and> map fst avg =
         [''January'', ''February'', ''March'', ''April'', ''May'', ''June'',
          ''July'', ''August'', ''September'', ''October'', ''November'', ''December'']
     \<and> (\<forall>i<12. snd (avg ! i) =
          (if \<exists>r \<in> set df. nat_of_digits (Month r) = i + 1
           then Some (sum_list (map Number_of_cases (filter (\<lambda>r. nat_of_digits (Month r) = i + 1) df))
                      / real (length (filter (\<lambda>r. nat_of_digits (Month r) = i + 1) df)))
           else None))"
    by (intro exI [of _ avg] conjI a l k v)
  then show ?thesis unfolding df_def .
qed

lemma beirut_selected:
  "df_filtered [''2020''] [''Beirut'']
     (load_data
       [\<lparr>refArea = Some ''http://dbpedia.org/resource/Beirut'', refPeriod = Some ''01-2020'',
         csv_Number_of_cases = Some 10\<rparr>,
        \<lparr>refArea = Some ''http://dbpedia.org/resource/Beirut'', refPeriod = Some ''02-2020'',
         csv_Number_of_cases = Some 20\<rparr>])
     = [\<lparr>Date = (2020, 1, 1), Year = ''2020'', Month = ''01'', Governorate = ''Beirut'',
         Number_of_cases = 10\<rparr>,
        \<lparr>Date = (2020, 2, 1), Year = ''2020'', Month = ''02'', Governorate = ''Beirut'',
         Number_of_cases = 20\<rparr>]"
  using beirut_load [of "''http://dbpedia.org''"] by (simp add: df_filtered_def)

theorem monthly_avg_twelve_months_witness:
  "\<exists>avg. monthly_avg (df_filtered [''2020''] [''Beirut'']
     (load_data
       [\<lparr>refArea = Some ''http://dbpedia.org/resource/Beirut'', refPeriod = Some ''01-2020'',
         csv_Number_of_cases = Some 10\<rparr>,
        \<lparr>refArea = Some ''http://dbpedia.org/resource/Beirut'', refPeriod = Some ''02-2020'',
         csv_Number_of_cases = Some 20\<rparr>])) = Inr avg
     \<and> length avg = 12 \<and> snd (avg ! 0) = Some 10 \<and> snd (avg ! 1) = Some 20
     \<and> snd (avg ! 2) = None"
proof -
  let ?csv = "[\<lparr>refArea = Some ''http://dbpedia.org/resource/Beirut'', refPeriod = Some ''01-2020'',
         csv_Number_of_cases = Some (10::real)\<rparr>,
        \<lparr>refArea = Some ''http://dbpedia.org/resource/Beirut'', refPeriod = Some ''02-2020'',
         csv_Number_of_cases = Some 20\<rparr>]"
  from monthly_avg_twelve_months [of "[''2020'']" "[''Beirut'']" ?csv]
  obtain avg where a: "monthly_avg (df_filtered [''2020''] [''Beirut''] (load_data ?csv)) = Inr avg"
    and l: "length avg = 12"
    and v: "\<And>i. i < 12 \<Longrightarrow> snd (avg ! i) =
          (if \<exists>r \<in> set (df_filtered [''2020''] [''Beirut''] (load_data ?csv)).
                 nat_of_digits (Month r) = i + 1
           then Some (sum_list (map Number_of_cases
                        (filter (\<lambda>r. nat_of_digits (Month r) = i + 1)
                           (df_filtered [''2020''] [''Beirut''] (load_data ?csv))))
                      / real (length (filter (\<lambda>r. nat_of_digits (Month r) = i + 1)
                           (df_filtered [''2020''] [''Beirut''] (load_data ?csv)))))
           else None)"
    by blast
  have "snd (avg ! 0) = Some 10" "snd (avg ! 1) = Some 20" "snd (avg ! 2) = None"
    using v [of 0] v [of 1] v [of 2] unfolding beirut_selected
    by (simp_all add: nat_of_digits_def digit_val_def)
  with a l show ?thesis by blast
qed

end
